theory Spec2Isabelle
  imports Main
begin

section \<open>Python strings\<close>

text \<open>
  A Python \<open>str\<close> is modelled as a \<open>string\<close>; each \<open>char\<close> stands for one code point
  below 256. \<open>is_space\<close> is the class that \<open>\s\<close> of \<open>re\<close> and \<open>str.strip()\<close> both use
  (\<open>str.isspace\<close>), restricted to these code points: tab, line feed, vertical tab, form
  feed, carriage return, the four separators 0x1C..0x1F, space, NEL (0x85) and the
  no-break space (0xA0).
\<close>

datatype py_error = ValueError | NameError | AttributeError | DuplicateIDError

definition is_space :: "char \<Rightarrow> bool" where
  "is_space c = (of_char c \<in> set [9, 10, 11, 12, 13, 28, 29, 30, 31, 32, 133, 160 :: nat])"

text \<open>\<open>s.replace(a, b)\<close> for one-character strings \<open>a\<close> and \<open>b\<close>.\<close>

definition replace_char :: "char \<Rightarrow> char \<Rightarrow> string \<Rightarrow> string" where
  "replace_char a b s = map (\<lambda>c. if c = a then b else c) s"

text \<open>
  \<open>re.sub(r"\s+", " ", s)\<close>: scanning from the left, every maximal run of whitespace
  is replaced by one space.
\<close>

function sub_ws :: "string \<Rightarrow> string" where
  "sub_ws [] = []"
| "sub_ws (c # cs) =
     (if is_space c then CHR '' '' # sub_ws (dropWhile is_space cs) else c # sub_ws cs)"
  by pat_completeness auto
termination
  by (relation "measure length") (auto simp: length_dropWhile_le less_Suc_eq_le)

text \<open>
  \<open>s.split(sep)\<close> with a separator given explicitly: the string is cut at every
  separator, so the result is never the empty list and empty pieces are kept.
  The separator is a predicate on characters; \<open>s.split(" ")\<close> is
  \<open>split_on (\<lambda>c. c = CHR '' '') s\<close>.
\<close>

fun split_on :: "(char \<Rightarrow> bool) \<Rightarrow> string \<Rightarrow> string list" where
  "split_on P [] = [[]]"
| "split_on P (c # cs) =
     (if P c then [] # split_on P cs
      else (case split_on P cs of [] \<Rightarrow> [[c]] | w # ws \<Rightarrow> (c # w) # ws))"

text \<open>\<open>sep.join(ws)\<close>.\<close>

fun join :: "string \<Rightarrow> string list \<Rightarrow> string" where
  "join sep [] = []"
| "join sep [w] = w"
| "join sep (w # v # ws) = w @ sep @ join sep (v # ws)"

text \<open>\<open>s.strip()\<close>: leading and trailing whitespace removed.\<close>

definition strip :: "string \<Rightarrow> string" where
  "strip s = rev (dropWhile is_space (rev (dropWhile is_space s)))"

text \<open>\<open>str(n)\<close> of an \<open>int\<close>, as an f-string renders it: decimal, with a minus sign.\<close>

definition digit_char :: "nat \<Rightarrow> char" where
  "digit_char d = ''0123456789'' ! d"

fun str_nat :: "nat \<Rightarrow> string" where
  "str_nat n = (if n < 10 then [digit_char n] else str_nat (n div 10) @ [digit_char (n mod 10)])"

declare str_nat.simps [simp del]

definition str_int :: "int \<Rightarrow> string" where
  "str_int i = (if i < 0 then ''-'' @ str_nat (nat (- i)) else str_nat (nat i))"

text \<open>\<open>range(0, n, step)\<close> for a positive step: \<open>0, step, 2 * step, ...\<close> below \<open>n\<close>.\<close>

definition range_step :: "nat \<Rightarrow> nat \<Rightarrow> nat list" where
  "range_step n step = map (\<lambda>k. k * step) [0 ..< (n + step - 1) div step]"


section \<open>Text normaliser and chunker\<close>

text \<open>
  A page of the PDF reader, as \<open>get_chunks\<close> sees it: the text \<open>extract_text()\<close>
  returns and the page's \<open>page_number\<close>.
\<close>

record page =
  extract_text :: string
  page_number :: int

definition clean_text :: "string \<Rightarrow> string" where
  "clean_text raw_text = sub_ws (replace_char (CHR 0x0A) (CHR '' '') raw_text)"

text \<open>The word list of a page: \<open>clean_text(page.extract_text()).split(" ")\<close>.\<close>

definition word_list :: "page \<Rightarrow> string list" where
  "word_list page = split_on (\<lambda>c. c = CHR '' '') (clean_text (extract_text page))"

type_synonym chunk = "string \<times> int"
type_synonym page_tokens = "string list \<times> int"

text \<open>An entry of \<open>text_tokens\<close>, as the list comprehension builds it.\<close>

definition page_entry :: "page \<Rightarrow> page_tokens" where
  "page_entry page = (word_list page, page_number page)"

text \<open>The two lines of \<open>get_chunks\<close> that turn a window of words into the chunk text.\<close>

definition format_chunk :: "string list \<Rightarrow> int \<Rightarrow> string" where
  "format_chunk chunk page_no =
     ''[Page no. '' @ str_int page_no @ '']'' @ '' '' @ [CHR 0x22]
       @ strip (join '' '' chunk) @ [CHR 0x22]"

text \<open>
  One pass of the inner loop \<open>for i in range(0, len(words), max_words)\<close>. The state
  is the list \<open>text_tokens\<close>, which the loop updates in place, and \<open>chunks\<close>.
  In the carry branch \<open>idx + 1\<close> is an index of \<open>text_tokens\<close>: \<open>idx\<close> is one and
  \<open>idx + 1\<close> is not its length.
\<close>

definition window_step ::
  "nat \<Rightarrow> string list \<Rightarrow> int \<Rightarrow> nat \<Rightarrow> page_tokens list \<times> chunk list \<Rightarrow> nat
    \<Rightarrow> page_tokens list \<times> chunk list" where
  "window_step max_words words page_no idx st i =
     (let text_tokens = fst st; chunks = snd st;
          chunk = take max_words (drop i words)
      in if i + max_words > length words \<and> length chunk < max_words
            \<and> length text_tokens \<noteq> idx + 1
         then let next_page = text_tokens ! (idx + 1)
              in (text_tokens[idx + 1 := (chunk @ fst next_page, snd next_page)], chunks)
         else (text_tokens, chunks @ [(format_chunk chunk page_no, page_no)]))"

text \<open>
  One pass of the outer loop \<open>for idx, (words, page_number) in enumerate(text_tokens)\<close>:
  the entry is read when the pass starts, so a carry of the pass before is seen.
\<close>

definition page_step ::
  "nat \<Rightarrow> page_tokens list \<times> chunk list \<Rightarrow> nat \<Rightarrow> page_tokens list \<times> chunk list" where
  "page_step max_words st idx =
     (let words = fst (fst st ! idx); page_no = snd (fst st ! idx)
      in foldl (window_step max_words words page_no idx) st
           (range_step (length words) max_words))"

text \<open>
  The outer loop. The list keeps its length (entries are only assigned to), so the
  iterator visits the indices \<open>0 ..< len(text_tokens)\<close>.
\<close>

definition chunk_loop :: "nat \<Rightarrow> page_tokens list \<Rightarrow> chunk list" where
  "chunk_loop max_words text_tokens =
     snd (foldl (page_step max_words) (text_tokens, []) [0 ..< length text_tokens])"

text \<open>
  \<open>get_chunks(pages, max_words)\<close>. \<open>range\<close> raises \<open>ValueError\<close> for a step of zero
  (when there is a page to run the inner loop for) and is empty for a negative step.
\<close>

definition get_chunks :: "page list \<Rightarrow> int \<Rightarrow> py_error + chunk list" where
  "get_chunks pages max_words =
     (let text_tokens = map page_entry pages
      in if text_tokens \<noteq> [] \<and> max_words = 0 then Inl ValueError
         else if max_words < 0 then Inr []
         else Inr (chunk_loop (nat max_words) text_tokens))"


section \<open>Document indexer and collection bootstrap\<close>

text \<open>
  Modelled from the spec: the external collection store (the vector database
  client), which is not code of this repository. A collection is addressed by its
  name; \<open>get_collection\<close> fails with \<open>ValueError\<close> when the name is absent;
  \<open>get_or_create_collection\<close> creates an empty collection with the given metadata
  when the name is absent; \<open>add\<close> appends the documents under their identifiers and
  rejects a duplicate identifier. \<open>add_calls\<close> counts the calls of \<open>add\<close>.
\<close>

record collection_data =
  coll_metadata :: "(string \<times> string) list"
  coll_entries :: "(string \<times> string) list"

record client =
  collections :: "string \<rightharpoonup> collection_data"
  add_calls :: nat

definition get_collection :: "client \<Rightarrow> string \<Rightarrow> py_error + string" where
  "get_collection c name =
     (case collections c name of None \<Rightarrow> Inl ValueError | Some d \<Rightarrow> Inr name)"

definition get_or_create_collection ::
  "client \<Rightarrow> string \<Rightarrow> (string \<times> string) list \<Rightarrow> client \<times> string" where
  "get_or_create_collection c name md =
     (case collections c name of
        Some d \<Rightarrow> (c, name)
      | None \<Rightarrow>
          (c\<lparr>collections := (collections c)(name \<mapsto> \<lparr>coll_metadata = md, coll_entries = []\<rparr>)\<rparr>,
           name))"

definition add ::
  "string \<Rightarrow> string list \<Rightarrow> string list \<Rightarrow> client \<Rightarrow> client \<times> py_error option" where
  "add coll documents ids c =
     (let c' = c\<lparr>add_calls := Suc (add_calls c)\<rparr>
      in case collections c coll of
           None \<Rightarrow> (c', Some ValueError)
         | Some d \<Rightarrow>
             if \<not> distinct ids \<or> set ids \<inter> fst ` set (coll_entries d) \<noteq> {}
             then (c', Some DuplicateIDError)
             else (c'\<lparr>collections := (collections c)
                       (coll \<mapsto> d\<lparr>coll_entries := coll_entries d @ zip ids documents\<rparr>)\<rparr>,
                   None))"

datatype CollectionStatus = COLLECTION_CREATED | COLLECTION_EXISTS

text \<open>
  \<open>ensure_collection(client)\<close>: the \<open>try\<close> catches \<open>ValueError\<close> only, any other
  exception of the lookup leaves the function.
\<close>

definition ensure_collection ::
  "client \<Rightarrow> client \<times> (py_error + CollectionStatus \<times> string option)" where
  "ensure_collection c =
     (let demo_collection = ''harry_potter''
      in case get_collection c demo_collection of
           Inr found \<Rightarrow> (c, Inr (COLLECTION_EXISTS, None))
         | Inl ValueError \<Rightarrow>
             (let created = get_or_create_collection c demo_collection
                              [(''hnsw:space'', ''cosine'')]
              in (fst created, Inr (COLLECTION_CREATED, Some (snd created))))
         | Inl e \<Rightarrow> (c, Inl e))"

text \<open>
  A PDF file as \<open>insert_document\<close> sees it: the stem of its path and the pages the
  reader returns.
\<close>

record document =
  doc_stem :: string
  doc_pages :: "page list"

text \<open>The identifiers \<open>insert_document\<close> builds in its loop over \<open>enumerate(chunks)\<close>.\<close>

definition document_ids :: "string \<Rightarrow> chunk list \<Rightarrow> string list" where
  "document_ids document_name chunks =
     map (\<lambda>(chunk_index, (chunk, page_no)).
            document_name @ ''_p'' @ str_int page_no @ ''-'' @ str_nat chunk_index)
       (enumerate 0 chunks)"

text \<open>
  \<open>insert_document(document_path, collection)\<close>; \<open>get_chunks\<close> is called with the
  default \<open>max_words = 150\<close>. With \<open>collection = None\<close> the call of \<open>add\<close> raises
  \<open>AttributeError\<close>.
\<close>

definition insert_document ::
  "document \<Rightarrow> string option \<Rightarrow> client \<Rightarrow> client \<times> py_error option" where
  "insert_document d collection c =
     (let document_name =
            replace_char (CHR ''_'') (CHR ''-'')
              (replace_char (CHR '' '') (CHR ''-'') (doc_stem d))
      in case get_chunks (doc_pages d) 150 of
           Inl e \<Rightarrow> (c, Some e)
         | Inr chunks \<Rightarrow>
             (case collection of
                None \<Rightarrow> (c, Some AttributeError)
              | Some coll \<Rightarrow>
                  add coll (map fst chunks) (document_ids document_name chunks) c))"

text \<open>
  The loop \<open>for document_path in files_directory.glob("*.pdf")\<close>; an exception ends
  the run and leaves the store as it is.
\<close>

fun insert_all ::
  "document list \<Rightarrow> string option \<Rightarrow> client \<Rightarrow> client \<times> py_error option" where
  "insert_all [] collection c = (c, None)"
| "insert_all (d # ds) collection c =
     (case insert_document d collection c of
        (c', Some e) \<Rightarrow> (c', Some e)
      | (c', None) \<Rightarrow> insert_all ds collection c')"

text \<open>The ingestion cell, run on the store \<open>c\<close> with the PDF files \<open>pdfs\<close>.\<close>

definition ingestion :: "client \<Rightarrow> document list \<Rightarrow> client \<times> py_error option" where
  "ingestion c pdfs =
     (case ensure_collection c of
        (c', Inl e) \<Rightarrow> (c', Some e)
      | (c', Inr (collection_status, collection)) \<Rightarrow>
          if collection_status = COLLECTION_EXISTS then (c', None)
          else insert_all pdfs collection c')"


section \<open>Prompt builder\<close>

definition instructions :: string where
  "instructions =
     ''Instructions: Compose a comprehensive reply to the query using the search results given. ''
     @ ''If the search results mention multiple subjects ''
     @ ''with the same name, create separate answers for each. Only include information found in the results and ''
     @ ''don't add any additional information. Make sure the answer is correct and don't output false content. ''
     @ ''If the text does not relate to the query, simply state 'Found Nothing'. Ignore outlier ''
     @ ''search results which has nothing to do with the question. Only answer what is asked. The ''
     @ ''answer should be short and concise.''"

definition build_prompt :: "string \<Rightarrow> string list \<Rightarrow> string" where
  "build_prompt question topn_chunks =
     (let prompt = ''Search results:'' @ [CHR 0x0A];
          prompt = foldl (\<lambda>prompt chunk. prompt @ chunk @ [CHR 0x0A, CHR 0x0A]) prompt topn_chunks;
          prompt = prompt @ instructions;
          prompt = prompt @ [CHR 0x0A, CHR 0x0A, CHR 0x0A] @ ''Query: '' @ question
                     @ [CHR 0x0A, CHR 0x0A] @ ''Answer: ''
      in prompt)"


section \<open>Consumer of the local streaming backend\<close>

text \<open>
  A response fragment is given by the outcome of
  \<open>json.loads(chunk.decode('utf-8')[6:])\<close>: \<open>None\<close> when it raises, the parsed
  payload otherwise. \<open>timings\<close> is the text \<open>print\<close> writes for the timing data.
\<close>

record payload =
  content :: string
  stop :: bool
  timings :: string

text \<open>
  The loop \<open>async for chunk in response.aiter_bytes()\<close>. The state is the variable
  \<open>data\<close> (\<open>None\<close> while it is unbound) and the text printed so far. The \<open>if\<close> after
  the \<open>try\<close> reads \<open>data\<close> whatever the \<open>try\<close> did; an unbound \<open>data\<close> raises
  \<open>NameError\<close>, which ends the loop.
\<close>

fun stream_loop ::
  "payload option \<Rightarrow> string \<Rightarrow> payload option list \<Rightarrow> string \<times> py_error option" where
  "stream_loop data out [] = (out, None)"
| "stream_loop data out (fragment # fragments) =
     (let data = (case fragment of Some parsed \<Rightarrow> Some parsed | None \<Rightarrow> data)
      in case data of
           None \<Rightarrow> (out, Some NameError)
         | Some d \<Rightarrow>
             if \<not> stop d then stream_loop data (out @ content d) fragments
             else stream_loop data
                    (out @ [CHR 0x0A, CHR 0x0A] @ [CHR 0x0A] @ timings d @ [CHR 0x0A])
                    fragments)"


section \<open>Words\<close>

text \<open>
  The notions the properties below are stated with. A word is a maximal run of
  characters that are not whitespace; \<open>word_seq s\<close> is the sequence of the words of
  \<open>s\<close>. \<open>chunk_body\<close> strips the wrapper \<open>[Page no. N] "..."\<close> off a chunk text: the
  text between the first double quote and the last character.
\<close>

definition word_seq :: "string \<Rightarrow> string list" where
  "word_seq s = filter (\<lambda>w. w \<noteq> []) (split_on is_space s)"

definition page_words :: "page \<Rightarrow> string list" where
  "page_words page = word_seq (clean_text (extract_text page))"

definition chunk_body :: "string \<Rightarrow> string" where
  "chunk_body s = butlast (tl (dropWhile (\<lambda>c. c \<noteq> CHR 0x22) s))"

definition chunk_words :: "chunk \<Rightarrow> string list" where
  "chunk_words c = word_seq (chunk_body (fst c))"


section \<open>The windows of the chunker\<close>

text \<open>
  What the two loops compute, by recursion over the pages: the full windows of a
  page are emitted, its remainder is emitted when the page is the last one and is
  put in front of the next page's words otherwise.
\<close>

definition full_windows :: "nat \<Rightarrow> 'a list \<Rightarrow> 'a list list" where
  "full_windows m ws = map (\<lambda>k. take m (drop (k * m) ws)) [0 ..< length ws div m]"

definition remainder :: "nat \<Rightarrow> 'a list \<Rightarrow> 'a list" where
  "remainder m ws = drop (length ws div m * m) ws"

fun windows :: "nat \<Rightarrow> page_tokens list \<Rightarrow> page_tokens list" where
  "windows m [] = []"
| "windows m [(ws, pn)] =
     map (\<lambda>w. (w, pn)) (full_windows m ws @ (if remainder m ws = [] then [] else [remainder m ws]))"
| "windows m ((ws, pn) # (ws', pn') # rest) =
     map (\<lambda>w. (w, pn)) (full_windows m ws) @ windows m ((remainder m ws @ ws', pn') # rest)"

definition render :: "page_tokens \<Rightarrow> chunk" where
  "render w = (format_chunk (fst w) (snd w), snd w)"


text \<open>Two neighbouring elements of a list both satisfy \<open>P\<close>.\<close>

fun adjacent :: "('a \<Rightarrow> bool) \<Rightarrow> 'a list \<Rightarrow> bool" where
  "adjacent P (x # y # zs) = ((P x \<and> P y) \<or> adjacent P (y # zs))"
| "adjacent P zs = False"


section \<open>The loops compute the windows\<close>

lemma ceil_div:
  assumes "0 < (m::nat)"
  shows "(n + m - 1) div m = n div m + (if n mod m = 0 then 0 else 1)"
proof -
  define q r where "q = n div m" and "r = n mod m"
  have n: "n = q * m + r" and r: "r < m" using assms by (simp_all add: q_def r_def)
  show ?thesis
  proof (cases "r = 0")
    case True
    have "(q * m + (m - 1)) div m = q" using assms
      by (metis add.right_neutral diff_less div_less div_mult_self3 not_gr_zero zero_less_one)
    then show ?thesis using True n assms r_def q_def by fastforce
  next
    case False
    then have "q * m + r + m - 1 = (q + 1) * m + (r - 1)" by (simp add: algebra_simps)
    moreover have "((q + 1) * m + (r - 1)) div m = q + 1"
      using r assms by (simp only: div_mult_self3 [of m "q + 1" "r - 1"]) simp
    ultimately show ?thesis using False n r_def q_def by presburger
  qed
qed

lemma range_step_split:
  assumes "0 < m"
  shows "range_step n m =
    map (\<lambda>k. k * m) [0 ..< n div m] @ (if n mod m = 0 then [] else [n div m * m])"
  unfolding range_step_def ceil_div [OF assms] by simp

lemma length_remainder: "0 < m \<Longrightarrow> length (remainder m ws) = length ws mod m"
  by (simp add: remainder_def minus_div_mult_eq_mod)

lemma remainder_Nil_iff: "0 < m \<Longrightarrow> remainder m ws = [] \<longleftrightarrow> length ws mod m = 0"
  using length_remainder [of m ws] by auto

lemma foldl_full_windows:
  assumes "0 < m" and "j \<le> length words div m"
  shows "foldl (window_step m words pn idx) (tt, cs) (map (\<lambda>k. k * m) [0 ..< j]) =
    (tt, cs @ map (\<lambda>k. render (take m (drop (k * m) words), pn)) [0 ..< j])"
  using assms(2)
proof (induction j)
  case 0
  then show ?case by simp
next
  case (Suc j)
  from Suc.prems have "Suc j * m \<le> length words div m * m" by (intro mult_le_mono1)
  also have "\<dots> \<le> length words" by simp
  finally have le: "j * m + m \<le> length words" by (simp add: algebra_simps)
  have step: "window_step m words pn idx (tt, cs') (j * m) =
      (tt, cs' @ [render (take m (drop (j * m) words), pn)])" for cs'
    using le by (simp add: window_step_def render_def Let_def)
  from Suc show ?case by (simp add: step)
qed

lemma page_step_eq:
  assumes m: "0 < m" and idx: "idx < length tt" and at: "tt ! idx = (ws, pn)"
  shows "page_step m (tt, cs) idx =
    (if remainder m ws = [] \<or> Suc idx = length tt then tt
     else tt[Suc idx := (remainder m ws @ fst (tt ! Suc idx), snd (tt ! Suc idx))],
     cs @ map (\<lambda>w. render (w, pn)) (full_windows m ws)
        @ (if remainder m ws \<noteq> [] \<and> Suc idx = length tt then [render (remainder m ws, pn)] else []))"
proof -
  let ?fulls = "map (\<lambda>k. render (take m (drop (k * m) ws), pn)) [0 ..< length ws div m]"
  have fulls: "?fulls = map (\<lambda>w. render (w, pn)) (full_windows m ws)"
    by (simp add: full_windows_def comp_def)
  have first: "foldl (window_step m ws pn idx) (tt, cs) (map (\<lambda>k. k * m) [0 ..< length ws div m])
      = (tt, cs @ ?fulls)"
    using foldl_full_windows [OF m order_refl] .
  show ?thesis
  proof (cases "length ws mod m = 0")
    case True
    then show ?thesis
      using m at first
      by (simp add: page_step_def range_step_split remainder_Nil_iff fulls)
  next
    case False
    let ?i = "length ws div m * m"
    have rem: "take m (drop ?i ws) = remainder m ws"
      using length_remainder [OF m, of ws] m by (simp add: remainder_def)
    have lt: "length (remainder m ws) < m" using length_remainder [OF m, of ws] m by simp
    have gt: "?i + m > length ws"
      using m by (metis add.commute div_mult_mod_eq mod_less_divisor mult.commute nat_add_left_cancel_less)
    have "page_step m (tt, cs) idx = window_step m ws pn idx (tt, cs @ ?fulls) ?i"
      using m at first False by (simp add: page_step_def range_step_split)
    also have "\<dots> = (if Suc idx = length tt then (tt, cs @ ?fulls @ [render (remainder m ws, pn)])
        else (tt[Suc idx := (remainder m ws @ fst (tt ! Suc idx), snd (tt ! Suc idx))], cs @ ?fulls))"
      using gt lt by (auto simp add: window_step_def Let_def rem render_def)
    finally show ?thesis
      using False m by (simp add: remainder_Nil_iff fulls)
  qed
qed


lemma drop_update_same:
  "n < length xs \<Longrightarrow> drop n (xs[n := x]) = x # drop (Suc n) xs"
  by (metis Cons_nth_drop_Suc drop_update_cancel length_list_update lessI nth_list_update_eq)

lemma outer_loop_eq:
  assumes m: "0 < m"
  shows "idx \<le> length tt \<Longrightarrow>
    snd (foldl (page_step m) (tt, cs) [idx ..< length tt]) = cs @ map render (windows m (drop idx tt))"
proof (induction "length tt - idx" arbitrary: tt cs idx)
  case 0
  then show ?case by simp
next
  case (Suc k)
  then have idx: "idx < length tt" by simp
  obtain ws pn where at: "tt ! idx = (ws, pn)" by (cases "tt ! idx")
  let ?st = "page_step m (tt, cs) idx"
  have st: "?st = (fst ?st, snd ?st)" by simp
  have len: "length (fst ?st) = length tt"
    by (simp add: page_step_eq [OF m idx at])
  have "snd (foldl (page_step m) (tt, cs) [idx ..< length tt])
      = snd (foldl (page_step m) (fst ?st, snd ?st) [Suc idx ..< length (fst ?st)])"
    using idx by (simp add: upt_conv_Cons len)
  also have "\<dots> = snd ?st @ map render (windows m (drop (Suc idx) (fst ?st)))"
    using Suc.hyps(2) idx by (intro Suc.hyps(1)) (simp_all add: len)
  also have "\<dots> = cs @ map render (windows m (drop idx tt))"
  proof (cases "Suc idx = length tt")
    case True
    then have "drop idx tt = [(ws, pn)]"
      using Cons_nth_drop_Suc [OF idx] at by simp
    then show ?thesis
      using True by (simp add: page_step_eq [OF m idx at] comp_def render_def)
  next
    case False
    then have idx': "Suc idx < length tt" using idx by simp
    obtain ws' pn' where at': "tt ! Suc idx = (ws', pn')" by (cases "tt ! Suc idx")
    have d: "drop idx tt = (ws, pn) # (ws', pn') # drop (Suc (Suc idx)) tt"
      using Cons_nth_drop_Suc [OF idx] Cons_nth_drop_Suc [OF idx'] at at' by simp
    have "drop (Suc idx) (fst ?st) = (remainder m ws @ ws', pn') # drop (Suc (Suc idx)) tt"
    proof (cases "remainder m ws = []")
      case True
      then show ?thesis
        using Cons_nth_drop_Suc [OF idx'] at' by (simp add: page_step_eq [OF m idx at])
    next
      case False
      then show ?thesis
        using \<open>Suc idx \<noteq> length tt\<close> idx' at'
        by (simp add: page_step_eq [OF m idx at] drop_update_same)
    qed
    then show ?thesis
      using False d by (simp add: page_step_eq [OF m idx at] comp_def render_def)
  qed
  finally show ?case .
qed

lemma chunk_loop_windows:
  "0 < m \<Longrightarrow> chunk_loop m tt = map render (windows m tt)"
  using outer_loop_eq [of m 0 tt "[]"] by (simp add: chunk_loop_def)

lemma concat_full_windows:
  assumes "0 < m"
  shows "concat (full_windows m ws) @ remainder m ws = ws"
proof -
  have "j \<le> length ws div m \<Longrightarrow>
      concat (map (\<lambda>k. take m (drop (k * m) ws)) [0 ..< j]) = take (j * m) ws" for j
  proof (induction j)
    case 0
    then show ?case by simp
  next
    case (Suc j)
    have "take (j * m + m) ws = take (j * m) ws @ take m (drop (j * m) ws)"
      by (rule take_add)
    with Suc show ?case by (simp add: add.commute)
  qed
  from this [of "length ws div m"] show ?thesis
    by (simp add: full_windows_def remainder_def)
qed

lemma length_full_window:
  assumes "0 < m" and "w \<in> set (full_windows m ws)"
  shows "length w = m"
proof -
  from assms(2) obtain k where k: "k < length ws div m" and w: "w = take m (drop (k * m) ws)"
    by (auto simp: full_windows_def)
  from k have "Suc k * m \<le> length ws div m * m" by (intro mult_le_mono1) simp
  also have "\<dots> \<le> length ws" by simp
  finally show ?thesis using w by (simp add: algebra_simps)
qed

lemma concat_windows:
  "0 < m \<Longrightarrow> concat (map fst (windows m tt)) = concat (map fst tt)"
proof (induction m tt rule: windows.induct)
  case (1 m)
  then show ?case by simp
next
  case (2 m ws pn)
  then show ?case
    using concat_full_windows [of m ws] by (auto simp: comp_def)
next
  case (3 m ws pn ws' pn' rest)
  then show ?case
    using concat_full_windows [of m ws] by (simp add: comp_def)
qed

lemma windows_full:
  "0 < m \<Longrightarrow> w \<in> set (butlast (windows m tt)) \<Longrightarrow> length (fst w) = m"
proof (induction m tt arbitrary: w rule: windows.induct)
  case (1 m)
  then show ?case by simp
next
  case (2 m ws pn)
  then have "w \<in> set (map (\<lambda>w. (w, pn)) (full_windows m ws))"
    by (auto simp: butlast_append dest: in_set_butlastD split: if_splits)
  then show ?case using length_full_window [OF \<open>0 < m\<close>] by auto
next
  case (3 m ws pn ws' pn' rest)
  from "3.prems"(2) have "w \<in> set (map (\<lambda>w. (w, pn)) (full_windows m ws))
      \<or> w \<in> set (butlast (windows m ((remainder m ws @ ws', pn') # rest)))"
    by (auto simp: butlast_append dest: in_set_butlastD split: if_splits)
  then show ?case
    using "3.IH" [OF \<open>0 < m\<close>] length_full_window [OF \<open>0 < m\<close>] by (cases w) auto
qed

lemma windows_single:
  shows "tt \<noteq> [] \<Longrightarrow> \<forall>e \<in> set tt. fst e \<noteq> [] \<Longrightarrow> length (concat (map fst tt)) \<le> m \<Longrightarrow>
    windows m tt = [(concat (map fst tt), snd (last tt))]"
proof (induction m tt rule: windows.induct)
  case (1 m)
  then show ?case by simp
next
  case (2 m ws pn)
  then have le: "length ws \<le> m" and ne: "ws \<noteq> []" by simp_all
  show ?case
  proof (cases "length ws = m")
    case True
    with ne have "0 < m" by auto
    then show ?thesis using True by (simp add: full_windows_def remainder_def)
  next
    case False
    with le have "length ws < m" by simp
    then show ?thesis using ne by (simp add: full_windows_def remainder_def)
  qed
next
  case (3 m ws pn ws' pn' rest)
  then have "length ws < m" by (cases ws') auto
  then have "full_windows m ws = []" "remainder m ws = ws"
    by (simp_all add: full_windows_def remainder_def)
  then show ?case using "3.IH" "3.prems" by auto
qed


section \<open>Splitting, joining and stripping\<close>

lemma split_on_not_Nil [simp]: "split_on P s \<noteq> []"
  by (induction s) (auto split: list.splits)

lemma split_on_Cons_not_sep:
  "\<not> P c \<Longrightarrow> split_on P (c # cs) = (c # hd (split_on P cs)) # tl (split_on P cs)"
  by (cases "split_on P cs") simp_all

lemma split_on_append_sep:
  "P c \<Longrightarrow> split_on P (s @ c # t) = split_on P s @ split_on P t"
proof (induction s)
  case Nil
  then show ?case by simp
next
  case (Cons x s)
  then show ?case
    by (cases "split_on P s") (auto split: list.splits)
qed

lemma split_on_no_sep: "\<forall>c \<in> set s. \<not> P c \<Longrightarrow> split_on P s = [s]"
  by (induction s) auto

lemma split_on_cong: "\<forall>c \<in> set s. P c = Q c \<Longrightarrow> split_on P s = split_on Q s"
  by (induction s) auto

lemma split_on_pieces:
  "w \<in> set (split_on P s) \<Longrightarrow> c \<in> set w \<Longrightarrow> c \<in> set s \<and> \<not> P c"
proof (induction s arbitrary: w)
  case Nil
  then show ?case by simp
next
  case (Cons x s)
  show ?case
  proof (cases "P x")
    case True
    with Cons show ?thesis by auto
  next
    case False
    obtain v vs where sp: "split_on P s = v # vs" by (cases "split_on P s") simp_all
    with False Cons.prems have "w = x # v \<or> w \<in> set vs" by simp
    then show ?thesis
    proof
      assume "w = x # v"
      with Cons.prems(2) have "c = x \<or> c \<in> set v" by simp
      then show ?thesis using False Cons.IH [of v] sp by auto
    next
      assume "w \<in> set vs"
      then show ?thesis using Cons.IH [of w] Cons.prems(2) sp by simp
    qed
  qed
qed

lemma split_on_join:
  assumes "P c"
  shows "ws \<noteq> [] \<Longrightarrow> \<forall>w \<in> set ws. \<forall>x \<in> set w. \<not> P x \<Longrightarrow> split_on P (join [c] ws) = ws"
proof (induction ws)
  case Nil
  then show ?case by simp
next
  case (Cons w ws)
  show ?case
  proof (cases ws)
    case Nil
    with Cons.prems show ?thesis by (simp add: split_on_no_sep)
  next
    case (Cons v vs)
    with Cons.IH Cons.prems have "split_on P (join [c] ws) = ws" by simp
    then show ?thesis
      using split_on_append_sep [of P c w "join [c] ws"] assms Cons Cons.prems
      by (simp add: split_on_no_sep)
  qed
qed

lemma word_seq_join:
  assumes "\<forall>w \<in> set ws. \<forall>x \<in> set w. \<not> is_space x"
  shows "word_seq (join '' '' ws) = filter (\<lambda>w. w \<noteq> []) ws"
proof (cases "ws = []")
  case True
  then show ?thesis by (simp add: word_seq_def)
next
  case False
  have "is_space (CHR '' '')" by (simp add: is_space_def)
  from split_on_join [OF this False assms] show ?thesis by (simp add: word_seq_def)
qed

lemma word_seq_Cons_space: "is_space c \<Longrightarrow> word_seq (c # s) = word_seq s"
  by (simp add: word_seq_def)

lemma word_seq_all_space: "\<forall>c \<in> set s. is_space c \<Longrightarrow> word_seq s = []"
  by (induction s) (simp_all add: word_seq_def)

lemma word_seq_dropWhile: "word_seq (dropWhile is_space s) = word_seq s"
  by (induction s) (simp_all add: word_seq_Cons_space)

lemma word_seq_append_space:
  "is_space c \<Longrightarrow> word_seq (s @ c # t) = word_seq s @ word_seq t"
  by (simp add: word_seq_def split_on_append_sep)

lemma word_seq_trailing:
  "\<forall>c \<in> set t. is_space c \<Longrightarrow> word_seq (s @ t) = word_seq s"
proof (cases t)
  case Nil
  then show ?thesis by simp
next
  case (Cons c t')
  assume "\<forall>c \<in> set t. is_space c"
  with Cons show ?thesis
    by (simp add: word_seq_append_space word_seq_all_space)
qed

lemma word_seq_strip: "word_seq (strip s) = word_seq s"
proof -
  let ?d = "dropWhile is_space s"
  have "?d = rev (dropWhile is_space (rev ?d)) @ rev (takeWhile is_space (rev ?d))"
    by (metis rev_append rev_rev_ident takeWhile_dropWhile_id)
  moreover have "\<forall>c \<in> set (rev (takeWhile is_space (rev ?d))). is_space c"
    by (auto dest: set_takeWhileD)
  ultimately have "word_seq ?d = word_seq (rev (dropWhile is_space (rev ?d)))"
    using word_seq_trailing by metis
  then show ?thesis by (simp add: strip_def word_seq_dropWhile)
qed

lemma sub_ws_space: "c \<in> set (sub_ws s) \<Longrightarrow> is_space c \<Longrightarrow> c = CHR '' ''"
  by (induction s rule: sub_ws.induct) (auto split: if_splits)

lemma clean_text_space: "c \<in> set (clean_text s) \<Longrightarrow> is_space c \<Longrightarrow> c = CHR '' ''"
  by (simp add: clean_text_def sub_ws_space)


section \<open>Numbers, chunk texts and words\<close>

lemma space_is_space: "is_space (CHR '' '')"
  by (simp add: is_space_def)

lemma digit_char_inj: "a < 10 \<Longrightarrow> b < 10 \<Longrightarrow> digit_char a = digit_char b \<Longrightarrow> a = b"
proof -
  assume a: "a < 10" and b: "b < 10" and eq: "digit_char a = digit_char b"
  have "distinct ''0123456789''" by simp
  then have "(''0123456789'' ! a = ''0123456789'' ! b) = (a = b)"
    using a b by (intro nth_eq_iff_index_eq) simp_all
  with eq show ?thesis unfolding digit_char_def by blast
qed

lemma digit_char_in: "d < 10 \<Longrightarrow> digit_char d \<in> set ''0123456789''"
  unfolding digit_char_def by (rule nth_mem) simp

lemma str_nat_not_Nil: "str_nat n \<noteq> []"
  by (subst str_nat.simps) simp

lemma str_nat_digits: "c \<in> set (str_nat n) \<Longrightarrow> c \<in> set ''0123456789''"
proof (induction n rule: str_nat.induct)
  case (1 n)
  show ?case
  proof (cases "n < 10")
    case True
    with "1.prems" show ?thesis
      using digit_char_in [of n] by (subst (asm) str_nat.simps) simp
  next
    case False
    with "1.prems" have "c \<in> set (str_nat (n div 10)) \<or> c = digit_char (n mod 10)"
      by (subst (asm) str_nat.simps) auto
    then show ?thesis
      using "1.IH" False digit_char_in [of "n mod 10"] by auto
  qed
qed

lemma str_nat_inj: "str_nat a = str_nat b \<Longrightarrow> a = b"
proof (induction a arbitrary: b rule: str_nat.induct)
  case (1 a)
  show ?case
  proof (cases "a < 10")
    case a: True
    show ?thesis
    proof (cases "b < 10")
      case True
      with a "1.prems" show ?thesis
        using digit_char_inj [of a b] by (simp add: str_nat.simps [of a] str_nat.simps [of b])
    next
      case False
      with a "1.prems" show ?thesis
        using str_nat_not_Nil [of "b div 10"]
        by (simp add: str_nat.simps [of a] str_nat.simps [of b])
    qed
  next
    case a: False
    show ?thesis
    proof (cases "b < 10")
      case True
      with a "1.prems" show ?thesis
        using str_nat_not_Nil [of "a div 10"]
        by (simp add: str_nat.simps [of a] str_nat.simps [of b])
    next
      case False
      with a "1.prems" have "str_nat (a div 10) = str_nat (b div 10)"
        and d: "digit_char (a mod 10) = digit_char (b mod 10)"
        by (simp_all add: str_nat.simps [of a] str_nat.simps [of b])
      with "1.IH" a have "a div 10 = b div 10" by simp
      moreover from d have "a mod 10 = b mod 10" by (intro digit_char_inj) simp_all
      ultimately show ?thesis by (metis div_mult_mod_eq)
    qed
  qed
qed

lemma dropWhile_stop:
  "\<forall>x \<in> set xs. P x \<Longrightarrow> \<not> P y \<Longrightarrow> dropWhile P (xs @ y # ys) = y # ys"
  by (induction xs) auto

lemma str_int_no_quote: "CHR 0x22 \<notin> set (str_int i)"
  using str_nat_digits [of "CHR 0x22"] by (auto simp: str_int_def)

lemma chunk_body_format: "chunk_body (format_chunk ws pn) = strip (join '' '' ws)"
proof -
  let ?pre = "''[Page no. '' @ str_int pn @ '']'' @ '' ''"
  have fmt: "format_chunk ws pn = ?pre @ CHR 0x22 # (strip (join '' '' ws) @ [CHR 0x22])"
    by (simp add: format_chunk_def)
  have "CHR 0x22 \<notin> set ?pre" using str_int_no_quote [of pn] by simp
  then have "\<forall>c \<in> set ?pre. c \<noteq> CHR 0x22" by blast
  then have "dropWhile (\<lambda>c. c \<noteq> CHR 0x22) (format_chunk ws pn)
      = CHR 0x22 # (strip (join '' '' ws) @ [CHR 0x22])"
    unfolding fmt by (intro dropWhile_stop) simp_all
  then show ?thesis by (simp add: chunk_body_def)
qed

lemma token_no_space:
  assumes "w \<in> set (fst (page_entry p))" and "c \<in> set w"
  shows "\<not> is_space c"
proof
  assume sp: "is_space c"
  from split_on_pieces [OF assms [unfolded page_entry_def word_list_def fst_conv]]
  have "c \<in> set (clean_text (extract_text p))" and "c \<noteq> CHR '' ''" by simp_all
  with sp clean_text_space show False by blast
qed

lemma page_words_tokens:
  "page_words p = filter (\<lambda>w. w \<noteq> []) (fst (page_entry p))"
proof -
  have "\<forall>c \<in> set (clean_text (extract_text p)). is_space c = (c = CHR '' '')"
    using clean_text_space space_is_space by blast
  from split_on_cong [OF this] show ?thesis
    by (simp add: page_words_def word_seq_def page_entry_def word_list_def)
qed

lemma chunk_words_render:
  assumes "\<forall>w \<in> set ws. \<forall>c \<in> set w. \<not> is_space c"
  shows "chunk_words (render (ws, pn)) = filter (\<lambda>w. w \<noteq> []) ws"
  by (simp add: chunk_words_def render_def chunk_body_format word_seq_strip
      word_seq_join [OF assms])

lemma get_chunks_pos:
  "0 < max_words \<Longrightarrow>
     get_chunks pages max_words = Inr (map render (windows (nat max_words) (map page_entry pages)))"
  by (simp add: get_chunks_def chunk_loop_windows page_entry_def [abs_def])

lemma windows_tokens:
  assumes m: "0 < m" and w: "w \<in> set (windows m (map page_entry pages))"
    and t: "t \<in> set (fst w)" and c: "c \<in> set t"
  shows "\<not> is_space c"
proof -
  from w t have "t \<in> set (concat (map fst (windows m (map page_entry pages))))" by auto
  then have "t \<in> set (concat (map fst (map page_entry pages)))"
    by (simp only: concat_windows [OF m])
  then obtain p where "t \<in> set (fst (page_entry p))" by auto
  from token_no_space [OF this c] show ?thesis .
qed

lemma chunk_words_windows:
  assumes m: "0 < m"
  shows "concat (map chunk_words (map render (windows m (map page_entry pages))))
    = concat (map page_words pages)"
proof -
  let ?W = "windows m (map page_entry pages)"
  have "map chunk_words (map render ?W) = map (\<lambda>w. filter (\<lambda>t. t \<noteq> []) (fst w)) ?W"
  proof (simp, intro ballI)
    fix w assume w: "w \<in> set ?W"
    have "chunk_words (render (fst w, snd w)) = filter (\<lambda>t. t \<noteq> []) (fst w)"
      using windows_tokens [OF m w] by (intro chunk_words_render) blast
    then show "chunk_words (render w) = filter (\<lambda>t. t \<noteq> []) (fst w)" by simp
  qed
  then have "map (\<lambda>w. chunk_words (render w)) ?W = map (\<lambda>w. filter (\<lambda>t. t \<noteq> []) (fst w)) ?W"
    by (simp add: comp_def)
  then have "concat (map chunk_words (map render ?W))
      = filter (\<lambda>t. t \<noteq> []) (concat (map fst ?W))"
    by (simp only: map_map comp_def filter_concat)
  also have "\<dots> = filter (\<lambda>t. t \<noteq> []) (concat (map fst (map page_entry pages)))"
    by (simp only: concat_windows [OF m])
  also have "\<dots> = concat (map page_words pages)"
    by (simp add: filter_concat comp_def page_words_tokens [symmetric])
  finally show ?thesis .
qed

lemma no_empty_tokens:
  assumes m: "0 < m" and ne: "\<forall>p \<in> set pages. [] \<notin> set (word_list p)"
    and w: "w \<in> set (windows m (map page_entry pages))"
  shows "[] \<notin> set (fst w)"
proof
  assume "[] \<in> set (fst w)"
  with w have "[] \<in> set (concat (map fst (windows m (map page_entry pages))))" by auto
  then have "[] \<in> set (concat (map fst (map page_entry pages)))"
    by (simp only: concat_windows [OF m])
  with ne show False by (auto simp: page_entry_def)
qed

lemma chunk_words_window:
  assumes m: "0 < m" and w: "w \<in> set (windows m (map page_entry pages))"
  shows "chunk_words (render w) = filter (\<lambda>t. t \<noteq> []) (fst w)"
proof -
  have "chunk_words (render (fst w, snd w)) = filter (\<lambda>t. t \<noteq> []) (fst w)"
    using windows_tokens [OF m w] by (intro chunk_words_render) blast
  then show ?thesis by simp
qed


lemma split_on_map:
  assumes "\<And>c. P (f c) = P c" and "\<And>c. \<not> P c \<Longrightarrow> f c = c"
  shows "split_on P (map f s) = split_on P s"
proof (induction s)
  case Nil
  then show ?case by simp
next
  case (Cons a s)
  show ?case
  proof (cases "P a")
    case True
    with Cons assms(1) [of a] show ?thesis by simp
  next
    case False
    with assms(2) [of a] have "f a = a" by simp
    with Cons False show ?thesis by simp
  qed
qed

lemma filter_hd_tl:
  "xs \<noteq> [] \<Longrightarrow> ys \<noteq> [] \<Longrightarrow> hd xs = hd ys \<Longrightarrow> filter P (tl xs) = filter P (tl ys)
     \<Longrightarrow> filter P xs = filter P ys"
  by (cases xs; cases ys) simp_all

lemma sub_ws_pieces:
  "hd (split_on is_space (sub_ws s)) = hd (split_on is_space s)
   \<and> filter (\<lambda>w. w \<noteq> []) (tl (split_on is_space (sub_ws s)))
     = filter (\<lambda>w. w \<noteq> []) (tl (split_on is_space s))"
proof (induction s rule: sub_ws.induct)
  case 1
  then show ?case by simp
next
  case (2 c cs)
  show ?case
  proof (cases "is_space c")
    case True
    let ?d = "dropWhile is_space cs"
    have step: "sub_ws (c # cs) = CHR '' '' # sub_ws ?d" using True by simp
    have l: "split_on is_space (CHR '' '' # sub_ws ?d) = [] # split_on is_space (sub_ws ?d)"
      using space_is_space by simp
    have r: "split_on is_space (c # cs) = [] # split_on is_space cs"
      using True by simp
    from "2.IH"(1) [OF True]
    have h: "hd (split_on is_space (sub_ws ?d)) = hd (split_on is_space ?d)"
      and t: "filter (\<lambda>w. w \<noteq> []) (tl (split_on is_space (sub_ws ?d)))
        = filter (\<lambda>w. w \<noteq> []) (tl (split_on is_space ?d))"
      by (rule conjunct1, rule conjunct2)
    have "filter (\<lambda>w. w \<noteq> []) (split_on is_space (sub_ws ?d))
        = filter (\<lambda>w. w \<noteq> []) (split_on is_space ?d)"
      by (rule filter_hd_tl [OF split_on_not_Nil split_on_not_Nil h t])
    also have "\<dots> = filter (\<lambda>w. w \<noteq> []) (split_on is_space cs)"
      using word_seq_dropWhile [of cs] by (simp only: word_seq_def)
    finally show ?thesis unfolding step l r by (simp only: list.sel simp_thms)
  next
    case False
    have step: "sub_ws (c # cs) = c # sub_ws cs" using False by simp
    have l: "split_on is_space (c # sub_ws cs)
        = (c # hd (split_on is_space (sub_ws cs))) # tl (split_on is_space (sub_ws cs))"
      using False by (rule split_on_Cons_not_sep)
    have r: "split_on is_space (c # cs)
        = (c # hd (split_on is_space cs)) # tl (split_on is_space cs)"
      using False by (rule split_on_Cons_not_sep)
    show ?thesis
      unfolding step l r using "2.IH"(2) [OF False] by (simp only: list.sel simp_thms)
  qed
qed

lemma word_seq_clean_text: "word_seq (clean_text s) = word_seq s"
proof -
  let ?r = "replace_char (CHR 0x0A) (CHR '' '') s"
  have nl: "is_space (CHR 0x0A)" by (simp add: is_space_def)
  have "split_on is_space ?r = split_on is_space s"
    unfolding replace_char_def using nl by (intro split_on_map) (auto simp: space_is_space)
  moreover have "filter (\<lambda>w. w \<noteq> []) (split_on is_space (sub_ws ?r))
      = filter (\<lambda>w. w \<noteq> []) (split_on is_space ?r)"
    by (rule filter_hd_tl [OF split_on_not_Nil split_on_not_Nil
          sub_ws_pieces [THEN conjunct1] sub_ws_pieces [THEN conjunct2]])
  ultimately show ?thesis by (simp add: word_seq_def clean_text_def)
qed

lemma page_words_raw: "page_words p = word_seq (extract_text p)"
  by (simp add: page_words_def word_seq_clean_text)


section \<open>Whitespace at the ends of a page text\<close>

lemma replace_newline_space: "is_space c \<Longrightarrow> is_space (if c = CHR 0x0A then CHR '' '' else c)"
  by (simp add: space_is_space)

lemma sub_ws_Nil_iff: "sub_ws s = [] \<longleftrightarrow> s = []"
  by (cases s) simp_all

lemma sub_ws_all_space:
  "s \<noteq> [] \<Longrightarrow> \<forall>c \<in> set s. is_space c \<Longrightarrow> sub_ws s = '' ''"
  by (cases s) (simp_all add: sub_ws_Nil_iff dropWhile_eq_Nil_conv)

lemma last_dropWhile: "dropWhile P xs \<noteq> [] \<Longrightarrow> last (dropWhile P xs) = last xs"
  by (induction xs) (auto split: if_splits)

lemma sub_ws_last:
  "s \<noteq> [] \<Longrightarrow> is_space (last s) \<Longrightarrow> last (sub_ws s) = CHR '' ''"
proof (induction s rule: sub_ws.induct)
  case 1
  then show ?case by simp
next
  case (2 c cs)
  show ?case
  proof (cases "is_space c")
    case True
    show ?thesis
    proof (cases "dropWhile is_space cs = []")
      case True
      with \<open>is_space c\<close> show ?thesis by (simp del: dropWhile_eq_Nil_conv)
    next
      case False
      then have "cs \<noteq> []" by auto
      with "2.prems" False have "is_space (last (dropWhile is_space cs))"
        by (simp add: last_dropWhile)
      with "2.IH"(1) True False show ?thesis by (simp add: sub_ws_Nil_iff)
    qed
  next
    case False
    with "2.prems" have "cs \<noteq> []" by auto
    with "2.prems" "2.IH"(2) False show ?thesis by (simp add: sub_ws_Nil_iff)
  qed
qed

lemma clean_text_all_space:
  assumes "s \<noteq> []" and "\<forall>c \<in> set s. is_space c"
  shows "clean_text s = '' ''"
  unfolding clean_text_def
  using assms by (intro sub_ws_all_space) (auto simp: replace_char_def space_is_space)

lemma clean_text_hd:
  assumes "s \<noteq> []" and "is_space (hd s)"
  shows "hd (clean_text s) = CHR '' ''"
  using assms by (cases s) (simp_all add: clean_text_def replace_char_def space_is_space)

lemma clean_text_last:
  assumes "s \<noteq> []" and "is_space (last s)"
  shows "clean_text s \<noteq> [] \<and> last (clean_text s) = CHR '' ''"
proof -
  let ?r = "replace_char (CHR 0x0A) (CHR '' '') s"
  have "?r \<noteq> []" using assms(1) by (simp add: replace_char_def)
  moreover have "is_space (last ?r)"
    using assms by (simp add: replace_char_def last_map space_is_space)
  ultimately show ?thesis
    by (simp add: clean_text_def sub_ws_last sub_ws_Nil_iff)
qed

lemma split_on_hd: "s \<noteq> [] \<Longrightarrow> P (hd s) \<Longrightarrow> hd (split_on P s) = []"
  by (cases s) simp_all

lemma split_on_last: "s \<noteq> [] \<Longrightarrow> P (last s) \<Longrightarrow> last (split_on P s) = []"
proof -
  assume "s \<noteq> []" and "P (last s)"
  then have "split_on P (butlast s @ last s # []) = split_on P (butlast s) @ split_on P []"
    by (intro split_on_append_sep)
  with \<open>s \<noteq> []\<close> show ?thesis by simp
qed

lemma adjacent_Cons: "adjacent P (x # t) = ((t \<noteq> [] \<and> P x \<and> P (hd t)) \<or> adjacent P t)"
  by (cases t) auto

lemma adjacent_mono: "adjacent P t \<Longrightarrow> (\<And>x. P x \<Longrightarrow> Q x) \<Longrightarrow> adjacent Q t"
  by (induction P t rule: adjacent.induct) auto

lemma split_on_hd_Nil: "hd (split_on P t) = [] \<longleftrightarrow> t = [] \<or> P (hd t)"
  by (cases t) (auto split: list.splits)

lemma Nil_in_set_hd_tl: "xs \<noteq> [] \<Longrightarrow> [] \<in> set xs \<longleftrightarrow> hd xs = [] \<or> [] \<in> set (tl xs)"
  by (cases xs) auto

lemma split_on_tl_Cons:
  "tl (split_on P (x # t)) = (if P x then split_on P t else tl (split_on P t))"
  by (cases "split_on P t") simp_all

lemma split_on_tl_Nil:
  "[] \<in> set (tl (split_on P t)) \<longleftrightarrow> (t \<noteq> [] \<and> P (last t)) \<or> adjacent P t"
proof (induction t)
  case Nil
  then show ?case by simp
next
  case (Cons x t)
  show ?case
  proof (cases "P x")
    case True
    have "[] \<in> set (tl (split_on P (x # t))) \<longleftrightarrow> [] \<in> set (split_on P t)"
      using True by (simp only: split_on_tl_Cons if_True)
    also have "\<dots> \<longleftrightarrow> hd (split_on P t) = [] \<or> [] \<in> set (tl (split_on P t))"
      by (rule Nil_in_set_hd_tl) simp
    also have "\<dots> \<longleftrightarrow> (t = [] \<or> P (hd t)) \<or> (t \<noteq> [] \<and> P (last t)) \<or> adjacent P t"
      by (simp only: split_on_hd_Nil Cons.IH)
    also have "\<dots> \<longleftrightarrow> (x # t \<noteq> [] \<and> P (last (x # t))) \<or> adjacent P (x # t)"
      using True by (cases "t = []") (simp_all add: adjacent_Cons, blast)
    finally show ?thesis .
  next
    case False
    have "[] \<in> set (tl (split_on P (x # t))) \<longleftrightarrow> [] \<in> set (tl (split_on P t))"
      using False by (simp only: split_on_tl_Cons if_False)
    also have "\<dots> \<longleftrightarrow> (t \<noteq> [] \<and> P (last t)) \<or> adjacent P t" by (rule Cons.IH)
    also have "\<dots> \<longleftrightarrow> (x # t \<noteq> [] \<and> P (last (x # t))) \<or> adjacent P (x # t)"
      using False by (cases "t = []") (simp_all add: adjacent_Cons)
    finally show ?thesis .
  qed
qed

lemma split_on_empty_piece:
  "[] \<in> set (split_on P t) \<longleftrightarrow> t = [] \<or> P (hd t) \<or> P (last t) \<or> adjacent P t"
proof -
  have "[] \<in> set (split_on P t) \<longleftrightarrow> hd (split_on P t) = [] \<or> [] \<in> set (tl (split_on P t))"
    by (rule Nil_in_set_hd_tl) simp
  then show ?thesis by (simp only: split_on_hd_Nil split_on_tl_Nil) blast
qed

lemma sub_ws_hd: "s \<noteq> [] \<Longrightarrow> hd (sub_ws s) = (if is_space (hd s) then CHR '' '' else hd s)"
  by (cases s) simp_all

lemma sub_ws_no_adjacent: "\<not> adjacent is_space (sub_ws s)"
proof (induction s rule: sub_ws.induct)
  case 1
  then show ?case by simp
next
  case (2 c cs)
  show ?case
  proof (cases "is_space c")
    case True
    let ?d = "dropWhile is_space cs"
    have step: "sub_ws (c # cs) = CHR '' '' # sub_ws ?d" using True by simp
    show ?thesis
    proof (cases "?d = []")
      case True
      then have "sub_ws ?d = []" by (simp only: sub_ws.simps)
      then show ?thesis unfolding step by simp
    next
      case False
      then have "\<not> is_space (hd ?d)" by (rule hd_dropWhile)
      then have "\<not> is_space (hd (sub_ws ?d))" using False by (simp add: sub_ws_hd)
      then show ?thesis
        unfolding step using "2.IH"(1) [OF True] by (simp only: adjacent_Cons) blast
    qed
  next
    case False
    then show ?thesis using "2.IH"(2) by (simp add: adjacent_Cons)
  qed
qed

lemma sub_ws_last_space:
  "s \<noteq> [] \<Longrightarrow> last (sub_ws s) = CHR '' '' \<Longrightarrow> is_space (last s)"
proof (induction s rule: sub_ws.induct)
  case 1
  then show ?case by simp
next
  case (2 c cs)
  show ?case
  proof (cases "is_space c")
    case True
    let ?d = "dropWhile is_space cs"
    have step: "sub_ws (c # cs) = CHR '' '' # sub_ws ?d" using True by simp
    show ?thesis
    proof (cases "?d = []")
      case True
      then have "\<forall>x \<in> set cs. is_space x" by (simp only: dropWhile_eq_Nil_conv)
      moreover have "last (c # cs) \<in> set (c # cs)" by (rule last_in_set) simp
      ultimately show ?thesis using \<open>is_space c\<close> by auto
    next
      case False
      then have ne: "sub_ws ?d \<noteq> []" by (simp only: sub_ws_Nil_iff not_False_eq_True)
      from False have cs: "cs \<noteq> []" by auto
      from "2.prems"(2) have "last (sub_ws ?d) = CHR '' ''"
        unfolding step using ne by simp
      with "2.IH"(1) [OF True False] have "is_space (last ?d)" by simp
      then have "is_space (last cs)" using last_dropWhile [OF False] by simp
      then show ?thesis using cs by simp
    qed
  next
    case False
    have step: "sub_ws (c # cs) = c # sub_ws cs" using False by simp
    show ?thesis
    proof (cases "cs = []")
      case True
      with False "2.prems" show ?thesis by (simp add: space_is_space)
    next
      case ne: False
      then have "sub_ws cs \<noteq> []" by (simp only: sub_ws_Nil_iff not_False_eq_True)
      with "2.prems"(2) have "last (sub_ws cs) = CHR '' ''" unfolding step by simp
      with "2.IH"(2) [OF False ne] show ?thesis using ne by simp
    qed
  qed
qed

lemma word_list_empty_token:
  "[] \<in> set (word_list p) \<longleftrightarrow>
     extract_text p = [] \<or> is_space (hd (extract_text p)) \<or> is_space (last (extract_text p))"
proof -
  let ?s = "extract_text p"
  let ?r = "replace_char (CHR 0x0A) (CHR '' '') ?s"
  let ?t = "clean_text ?s"
  have r_Nil: "?r = [] \<longleftrightarrow> ?s = []" by (simp add: replace_char_def)
  have t_Nil: "?t = [] \<longleftrightarrow> ?s = []" by (simp add: clean_text_def sub_ws_Nil_iff r_Nil)
  have sp_map: "is_space (if c = CHR 0x0A then CHR '' '' else c) \<longleftrightarrow> is_space c" for c
    by (simp add: is_space_def)
  have r_hd: "is_space (hd ?r) \<longleftrightarrow> is_space (hd ?s)" if "?s \<noteq> []"
    using that by (simp add: replace_char_def hd_map sp_map)
  have r_last: "is_space (last ?r) \<longleftrightarrow> is_space (last ?s)" if "?s \<noteq> []"
    using that by (simp add: replace_char_def last_map sp_map)
  have no_adj: "\<not> adjacent (\<lambda>c. c = CHR '' '') ?t"
  proof
    assume "adjacent (\<lambda>c. c = CHR '' '') ?t"
    then have "adjacent is_space ?t" by (rule adjacent_mono) (simp add: space_is_space)
    then show False by (simp add: clean_text_def sub_ws_no_adjacent)
  qed
  have hd_iff: "hd ?t = CHR '' '' \<longleftrightarrow> is_space (hd ?s)" if "?s \<noteq> []"
  proof -
    from that have "?r \<noteq> []" by (simp add: r_Nil)
    then have "hd ?t = (if is_space (hd ?r) then CHR '' '' else hd ?r)"
      unfolding clean_text_def by (rule sub_ws_hd)
    then show ?thesis using r_hd [OF that] space_is_space by auto
  qed
  have last_iff: "last ?t = CHR '' '' \<longleftrightarrow> is_space (last ?s)" if "?s \<noteq> []"
  proof
    assume "last ?t = CHR '' ''"
    then have "is_space (last ?r)"
      unfolding clean_text_def using that by (intro sub_ws_last_space) (simp_all add: r_Nil)
    then show "is_space (last ?s)" using r_last [OF that] by simp
  next
    assume "is_space (last ?s)"
    then show "last ?t = CHR '' ''" using that clean_text_last by simp
  qed
  have "[] \<in> set (word_list p) \<longleftrightarrow>
      ?t = [] \<or> hd ?t = CHR '' '' \<or> last ?t = CHR '' '' \<or> adjacent (\<lambda>c. c = CHR '' '') ?t"
    unfolding word_list_def by (rule split_on_empty_piece)
  then show ?thesis
    using no_adj t_Nil hd_iff last_iff by (cases "?s = []") simp_all
qed


section \<open>Pages without whitespace at the ends\<close>

text \<open>
  The word list of a page is \<open>clean_text(page.extract_text()).split(" ")\<close>. When the
  text of the page is not empty and neither begins nor ends with whitespace, the
  entries of the word list are exactly the words of the page.
\<close>

lemma clean_page_word_list:
  assumes "extract_text p \<noteq> []" and "\<not> is_space (hd (extract_text p))"
    and "\<not> is_space (last (extract_text p))"
  shows "word_list p = page_words p"
proof -
  from assms have "[] \<notin> set (word_list p)" by (simp add: word_list_empty_token)
  then have "filter (\<lambda>w. w \<noteq> []) (word_list p) = word_list p"
    by (auto simp: filter_id_conv)
  then show ?thesis by (simp add: page_words_tokens page_entry_def)
qed

lemma clean_pages_word_lists:
  assumes "\<forall>p \<in> set pages. extract_text p \<noteq> []
      \<and> \<not> is_space (hd (extract_text p)) \<and> \<not> is_space (last (extract_text p))"
  shows "map word_list pages = map page_words pages"
  using assms by (intro map_cong refl clean_page_word_list) blast+

text \<open>
  On such pages every chunk before the last one has exactly \<open>max_words\<close> words.
\<close>

lemma full_chunks_on_clean_pages:
  assumes "0 < max_words"
    and clean: "\<forall>p \<in> set pages. extract_text p \<noteq> []
        \<and> \<not> is_space (hd (extract_text p)) \<and> \<not> is_space (last (extract_text p))"
  shows "\<exists>chunks. get_chunks pages max_words = Inr chunks
    \<and> (\<forall>c \<in> set (butlast chunks). length (chunk_words c) = nat max_words)"
proof -
  let ?m = "nat max_words"
  let ?W = "windows ?m (map page_entry pages)"
  from assms(1) have m: "0 < ?m" by simp
  have run: "get_chunks pages max_words = Inr (map render ?W)"
    using assms(1) by (rule get_chunks_pos)
  from clean have ne: "\<forall>p \<in> set pages. [] \<notin> set (word_list p)"
    by (simp add: word_list_empty_token)
  have "length (chunk_words c) = ?m" if c: "c \<in> set (butlast (map render ?W))" for c
  proof -
    from c obtain w where w: "w \<in> set (butlast ?W)" and cw: "c = render w"
      by (auto simp: map_butlast [symmetric])
    from w have w': "w \<in> set ?W" by (rule in_set_butlastD)
    have "filter (\<lambda>t. t \<noteq> []) (fst w) = fst w"
      using no_empty_tokens [OF m ne w'] by (auto simp: filter_id_conv)
    then show ?thesis
      using chunk_words_window [OF m w'] windows_full [OF m w] cw by simp
  qed
  then show ?thesis unfolding run by blast
qed

text \<open>
  A non-empty list of pages whose word lists have at most \<open>max_words\<close> entries in
  all is emitted as one chunk, under the page number of the last page.
\<close>

lemma one_window_when_entries_fit:
  assumes "0 < max_words" and "pages \<noteq> []"
    and "length (concat (map word_list pages)) \<le> nat max_words"
  shows "get_chunks pages max_words =
      Inr [(format_chunk (concat (map word_list pages)) (page_number (last pages)),
            page_number (last pages))]
    \<and> chunk_words (format_chunk (concat (map word_list pages)) (page_number (last pages)),
                    page_number (last pages))
        = concat (map page_words pages)"
proof -
  let ?m = "nat max_words"
  let ?tt = "map page_entry pages"
  from assms(1) have m: "0 < ?m" by simp
  have fst_tt: "map fst ?tt = map word_list pages" by (simp add: page_entry_def comp_def)
  have fst_tt': "map (fst \<circ> page_entry) pages = map word_list pages"
    by (simp add: page_entry_def comp_def)
  have "length (concat (map fst ?tt)) \<le> ?m" using assms(3) by (simp only: fst_tt)
  moreover have "\<forall>e \<in> set ?tt. fst e \<noteq> []" by (simp add: page_entry_def word_list_def)
  ultimately have "windows ?m ?tt = [(concat (map fst ?tt), snd (last ?tt))]"
    using assms(2) by (intro windows_single) simp_all
  then have W: "windows ?m ?tt =
      [(concat (map word_list pages), page_number (last pages))]"
    using assms(2) by (simp add: fst_tt' last_map page_entry_def)
  have "concat (map chunk_words (map render (windows ?m ?tt))) = concat (map page_words pages)"
    using m by (rule chunk_words_windows)
  with W show ?thesis using assms(1) by (simp add: get_chunks_pos render_def)
qed

text \<open>
  Two pages whose word lists have 170 and 80 entries, \<open>max_words = 150\<close>: the first
  chunk is made of the entries \<open>[0:150]\<close> of page 1, the second of the 20 entries
  that are left followed by the 80 entries of page 2. When the texts of both pages
  are not empty and have no whitespace at the ends, the entries are the words.
\<close>

lemma two_windows_170_80:
  assumes "length (word_list p1) = 170" and "length (word_list p2) = 80"
  shows "get_chunks [p1, p2] 150 =
      Inr [(format_chunk (take 150 (word_list p1)) (page_number p1), page_number p1),
           (format_chunk (drop 150 (word_list p1) @ word_list p2) (page_number p2),
            page_number p2)]
    \<and> ([] \<notin> set (word_list p1) \<and> [] \<notin> set (word_list p2) \<longrightarrow>
         chunk_words (format_chunk (take 150 (word_list p1)) (page_number p1), page_number p1)
           = take 150 (word_list p1)
         \<and> chunk_words (format_chunk (drop 150 (word_list p1) @ word_list p2) (page_number p2),
                         page_number p2)
           = drop 150 (word_list p1) @ word_list p2)"
proof -
  let ?w1 = "word_list p1" and ?w2 = "word_list p2"
  have f1: "full_windows 150 ?w1 = [take 150 ?w1]"
    using assms(1) by (simp add: full_windows_def)
  have r1: "remainder 150 ?w1 = drop 150 ?w1"
    using assms(1) by (simp add: remainder_def)
  have f2: "full_windows 150 (drop 150 ?w1 @ ?w2) = []"
    using assms by (simp add: full_windows_def)
  have r2: "remainder 150 (drop 150 ?w1 @ ?w2) = drop 150 ?w1 @ ?w2"
    using assms by (simp add: remainder_def)
  have ne: "?w2 \<noteq> []" using assms(2) by auto
  have W: "windows 150 (map page_entry [p1, p2]) =
      [(take 150 ?w1, page_number p1), (drop 150 ?w1 @ ?w2, page_number p2)]"
    by (simp add: page_entry_def f1 r1 f2 r2 ne)
  have n: "nat 150 = (150::nat)" by simp
  have "get_chunks [p1, p2] 150 = Inr (map render (windows (nat 150) (map page_entry [p1, p2])))"
    by (rule get_chunks_pos) simp
  then have run: "get_chunks [p1, p2] 150 =
      Inr [(format_chunk (take 150 ?w1) (page_number p1), page_number p1),
           (format_chunk (drop 150 ?w1 @ ?w2) (page_number p2), page_number p2)]"
    unfolding n W by (simp add: render_def)
  have words: "chunk_words (format_chunk (take 150 ?w1) (page_number p1), page_number p1)
        = take 150 ?w1
      \<and> chunk_words (format_chunk (drop 150 ?w1 @ ?w2) (page_number p2), page_number p2)
        = drop 150 ?w1 @ ?w2"
    if none: "[] \<notin> set ?w1 \<and> [] \<notin> set ?w2"
  proof -
    have mem: "chunk_words (render w) = filter (\<lambda>t. t \<noteq> []) (fst w)"
      if "w \<in> set (windows 150 (map page_entry [p1, p2]))" for w
      using that by (rule chunk_words_window [rotated]) simp
    from none have "filter (\<lambda>t. t \<noteq> []) ?w1 = ?w1" "filter (\<lambda>t. t \<noteq> []) ?w2 = ?w2"
      by (auto simp: filter_id_conv)
    then have flt: "filter (\<lambda>t. t \<noteq> []) (take 150 ?w1) = take 150 ?w1"
      "filter (\<lambda>t. t \<noteq> []) (drop 150 ?w1 @ ?w2) = drop 150 ?w1 @ ?w2"
      using none by (auto simp: filter_id_conv dest: in_set_takeD in_set_dropD)
    have c1: "chunk_words (render (take 150 ?w1, page_number p1)) = take 150 ?w1"
      using mem [of "(take 150 ?w1, page_number p1)"] flt(1) unfolding W by simp
    have c2: "chunk_words (render (drop 150 ?w1 @ ?w2, page_number p2)) = drop 150 ?w1 @ ?w2"
      using mem [of "(drop 150 ?w1 @ ?w2, page_number p2)"] flt(2) unfolding W by simp
    from c1 c2 show ?thesis by (simp add: render_def)
  qed
  from run words show ?thesis by blast
qed

lemma scenario_170_80_on_clean_pages:
  assumes c1: "extract_text p1 \<noteq> []" "\<not> is_space (hd (extract_text p1))"
      "\<not> is_space (last (extract_text p1))"
    and c2: "extract_text p2 \<noteq> []" "\<not> is_space (hd (extract_text p2))"
      "\<not> is_space (last (extract_text p2))"
    and "length (page_words p1) = 170" and "length (page_words p2) = 80"
  shows "get_chunks [p1, p2] 150 =
      Inr [(format_chunk (take 150 (page_words p1)) (page_number p1), page_number p1),
           (format_chunk (drop 150 (page_words p1) @ page_words p2) (page_number p2),
            page_number p2)]
    \<and> chunk_words (format_chunk (take 150 (page_words p1)) (page_number p1), page_number p1)
        = take 150 (page_words p1)
    \<and> chunk_words (format_chunk (drop 150 (page_words p1) @ page_words p2) (page_number p2),
                    page_number p2)
        = drop 150 (page_words p1) @ page_words p2"
proof -
  have e1: "word_list p1 = page_words p1" using c1 by (rule clean_page_word_list)
  have e2: "word_list p2 = page_words p2" using c2 by (rule clean_page_word_list)
  have n1: "[] \<notin> set (word_list p1)" using c1 by (simp add: word_list_empty_token)
  have n2: "[] \<notin> set (word_list p2)" using c2 by (simp add: word_list_empty_token)
  have l1: "length (word_list p1) = 170" using assms(7) by (simp only: e1)
  have l2: "length (word_list p2) = 80" using assms(8) by (simp only: e2)
  note T = two_windows_170_80 [OF l1 l2]
  from T have run: "get_chunks [p1, p2] 150 =
      Inr [(format_chunk (take 150 (word_list p1)) (page_number p1), page_number p1),
           (format_chunk (drop 150 (word_list p1) @ word_list p2) (page_number p2),
            page_number p2)]"
    by (rule conjunct1)
  from T n1 n2 have cw:
    "chunk_words (format_chunk (take 150 (word_list p1)) (page_number p1), page_number p1)
        = take 150 (word_list p1)
     \<and> chunk_words (format_chunk (drop 150 (word_list p1) @ word_list p2) (page_number p2),
                     page_number p2)
        = drop 150 (word_list p1) @ word_list p2"
    by blast
  from run cw show ?thesis unfolding e1 e2 by (rule conjI)
qed

section \<open>Identifiers, the store and the prompt\<close>

lemma takeWhile_stop:
  "\<forall>x \<in> set xs. P x \<Longrightarrow> \<not> P y \<Longrightarrow> takeWhile P (xs @ y # ys) = xs"
  by (induction xs) auto

lemma str_nat_no_dash: "CHR ''-'' \<notin> set (str_nat n)"
  using str_nat_digits [of "CHR ''-''" n] by auto

lemma id_suffix_inj:
  assumes "a @ ''-'' @ str_nat i = b @ ''-'' @ str_nat j"
  shows "i = j"
proof -
  have tw: "takeWhile (\<lambda>c. c \<noteq> CHR ''-'') (rev (x @ ''-'' @ str_nat n)) = rev (str_nat n)" for x n
  proof -
    have "\<forall>c \<in> set (rev (str_nat n)). c \<noteq> CHR ''-''"
      using str_nat_no_dash [of n] by auto
    then have "takeWhile (\<lambda>c. c \<noteq> CHR ''-'') (rev (str_nat n) @ CHR ''-'' # rev x) = rev (str_nat n)"
      by (rule takeWhile_stop) simp
    then show ?thesis by simp
  qed
  from assms have "rev (str_nat i) = rev (str_nat j)"
    using tw [of a i] tw [of b j] by simp
  then show ?thesis using str_nat_inj by simp
qed

lemma document_ids_nth:
  assumes "i < length chunks"
  shows "document_ids name chunks ! i =
    name @ ''_p'' @ str_int (snd (chunks ! i)) @ ''-'' @ str_nat i"
  using assms by (simp add: document_ids_def nth_enumerate_eq split_beta)

lemma foldl_append_chunks:
  "foldl (\<lambda>prompt chunk. prompt @ chunk @ sep) acc chunks
     = acc @ concat (map (\<lambda>chunk. chunk @ sep) chunks)"
  by (induction chunks arbitrary: acc) simp_all

lemma get_chunks_default: "\<exists>chunks. get_chunks pages 150 = Inr chunks"
  by (simp add: get_chunks_def)

lemma add_keeps_collection:
  "collections c name \<noteq> None \<Longrightarrow> collections (fst (add coll documents ids c)) name \<noteq> None"
  by (auto simp: add_def Let_def split: option.splits)

lemma insert_document_keeps_collection:
  "collections c name \<noteq> None \<Longrightarrow>
     collections (fst (insert_document d collection c)) name \<noteq> None"
  using get_chunks_default [of "doc_pages d"] add_keeps_collection [of c name]
  by (auto simp: insert_document_def Let_def split: option.splits)

lemma insert_all_keeps_collection:
  "collections c name \<noteq> None \<Longrightarrow>
     collections (fst (insert_all ds collection c)) name \<noteq> None"
proof (induction ds arbitrary: c)
  case Nil
  then show ?case by simp
next
  case (Cons d ds)
  obtain c' r where step: "insert_document d collection c = (c', r)"
    by (cases "insert_document d collection c")
  with Cons.prems insert_document_keeps_collection [of c name d collection]
  have "collections c' name \<noteq> None" by simp
  with Cons.IH [of c'] step show ?case by (cases r) simp_all
qed

lemma add_counts:
  "add_calls (fst (add coll documents ids c)) = Suc (add_calls c)"
  by (simp add: add_def Let_def split: option.splits)

lemma insert_all_counts:
  "snd (insert_all ds (Some coll) c) = None \<Longrightarrow>
     add_calls (fst (insert_all ds (Some coll) c)) = add_calls c + length ds"
proof (induction ds arbitrary: c)
  case Nil
  then show ?case by simp
next
  case (Cons d ds)
  obtain chunks where ch: "get_chunks (doc_pages d) 150 = Inr chunks"
    using get_chunks_default by blast
  obtain c' r where step: "insert_document d (Some coll) c = (c', r)"
    by (cases "insert_document d (Some coll) c")
  then have "c' = fst (insert_document d (Some coll) c)" by simp
  then have cnt: "add_calls c' = Suc (add_calls c)"
    by (simp add: insert_document_def Let_def ch add_counts)
  show ?case
  proof (cases r)
    case None
    with Cons step cnt show ?thesis by simp
  next
    case (Some e)
    with Cons.prems step show ?thesis by simp
  qed
qed

lemma ensure_collection_exists:
  "collections c ''harry_potter'' \<noteq> None \<Longrightarrow>
     ensure_collection c = (c, Inr (COLLECTION_EXISTS, None))"
  by (auto simp: ensure_collection_def get_collection_def)

lemma ensure_collection_absent:
  "collections c ''harry_potter'' = None \<Longrightarrow>
     ensure_collection c =
       (c\<lparr>collections := (collections c)(''harry_potter'' \<mapsto>
            \<lparr>coll_metadata = [(''hnsw:space'', ''cosine'')], coll_entries = []\<rparr>)\<rparr>,
        Inr (COLLECTION_CREATED, Some ''harry_potter''))"
  by (simp add: ensure_collection_def get_collection_def get_or_create_collection_def Let_def)


lemma get_collection_found:
  "get_collection c name = Inr name \<longleftrightarrow> collections c name \<noteq> None"
  by (simp add: get_collection_def split: option.splits)

lemma get_collection_missing:
  "get_collection c name = Inl ValueError \<longleftrightarrow> collections c name = None"
  by (simp add: get_collection_def split: option.splits)

lemma ingestion_exists:
  "collections c ''harry_potter'' \<noteq> None \<Longrightarrow> ingestion c pdfs = (c, None)"
  by (simp add: ingestion_def ensure_collection_exists)

lemma ingestion_absent:
  "collections c ''harry_potter'' = None \<Longrightarrow>
     ingestion c pdfs = insert_all pdfs (Some ''harry_potter'') (fst (ensure_collection c))"
  by (simp add: ingestion_def ensure_collection_absent)

lemma ingestion_creates:
  "collections (fst (ingestion c pdfs)) ''harry_potter'' \<noteq> None"
proof (cases "collections c ''harry_potter''")
  case None
  then show ?thesis
    by (simp add: ingestion_absent ensure_collection_absent insert_all_keeps_collection)
next
  case (Some d)
  then show ?thesis by (simp add: ingestion_exists)
qed


section \<open>Properties of the chunker\<close>

text \<open>
  C1. For every list of pages and every positive \<open>max_words\<close>, \<open>get_chunks\<close> returns,
  and the words of the emitted chunks (the wrapper \<open>[Page no. N] "..."\<close> stripped),
  concatenated in emission order, are exactly the words of the normalised page texts
  concatenated in page order: no word is dropped, duplicated or reordered.
\<close>

theorem get_chunks_preserves_words:
  assumes "0 < max_words"
  shows "\<exists>chunks. get_chunks pages max_words = Inr chunks
    \<and> concat (map chunk_words chunks) = concat (map page_words pages)"
  using assms chunk_words_windows [of "nat max_words" pages]
  by (simp add: get_chunks_pos)

text \<open>
  Witness for C1: two pages, the second with leading, doubled and trailing
  whitespace, and \<open>max_words = 2\<close>.
\<close>

theorem get_chunks_preserves_words_witness:
  "get_chunks
     [\<lparr>extract_text = ''a b c'', page_number = 1\<rparr>,
      \<lparr>extract_text = '' d  e'' @ [CHR 0x0A], page_number = 2\<rparr>] 2
   = Inr [(''[Page no. 1] '' @ [CHR 0x22] @ ''a b'' @ [CHR 0x22], 1),
          (''[Page no. 2] '' @ [CHR 0x22] @ ''c'' @ [CHR 0x22], 2),
          (''[Page no. 2] '' @ [CHR 0x22] @ ''d e'' @ [CHR 0x22], 2),
          (''[Page no. 2] '' @ [CHR 0x22] @ [CHR 0x22], 2)]
   \<and> concat (map chunk_words
        [(''[Page no. 1] '' @ [CHR 0x22] @ ''a b'' @ [CHR 0x22], 1),
         (''[Page no. 2] '' @ [CHR 0x22] @ ''c'' @ [CHR 0x22], 2),
         (''[Page no. 2] '' @ [CHR 0x22] @ ''d e'' @ [CHR 0x22], 2),
         (''[Page no. 2] '' @ [CHR 0x22] @ [CHR 0x22], 2)])
     = [''a'', ''b'', ''c'', ''d'', ''e'']"
proof -
  let ?pages = "[\<lparr>extract_text = ''a b c'', page_number = 1\<rparr>,
      \<lparr>extract_text = '' d  e'' @ [CHR 0x0A], page_number = 2\<rparr>]"
  have run: "get_chunks ?pages 2
   = Inr [(''[Page no. 1] '' @ [CHR 0x22] @ ''a b'' @ [CHR 0x22], 1),
          (''[Page no. 2] '' @ [CHR 0x22] @ ''c'' @ [CHR 0x22], 2),
          (''[Page no. 2] '' @ [CHR 0x22] @ ''d e'' @ [CHR 0x22], 2),
          (''[Page no. 2] '' @ [CHR 0x22] @ [CHR 0x22], 2)]"
    by code_simp
  have pw: "concat (map page_words ?pages) = [''a'', ''b'', ''c'', ''d'', ''e'']"
    by code_simp
  from get_chunks_preserves_words [of 2 ?pages] run pw show ?thesis by simp
qed

text \<open>
  C2, at the failing input. Two pages, six words in all, \<open>max_words = 2\<close>; the text
  of page 1 ends with a line feed. \<open>clean_text\<close> turns the line feed into a space,
  \<open>split(" ")\<close> leaves an empty string after it, and the word list of page 1 is
  \<open>["a", "b", "c", ""]\<close>. The window \<open>["c", ""]\<close> has \<open>max_words\<close> entries, so it is
  not carried into page 2: it is emitted for page 1, and \<open>strip()\<close> leaves the single
  word \<open>c\<close>. The chunk is the second of four, not the final chunk of the final page,
  and it has fewer than \<open>max_words\<close> words.
\<close>

theorem short_chunk_after_trailing_line_feed:
  "get_chunks
     [\<lparr>extract_text = ''a b c'' @ [CHR 0x0A], page_number = 1\<rparr>,
      \<lparr>extract_text = ''d e f'', page_number = 2\<rparr>] 2
   = Inr [(''[Page no. 1] '' @ [CHR 0x22] @ ''a b'' @ [CHR 0x22], 1),
          (''[Page no. 1] '' @ [CHR 0x22] @ ''c'' @ [CHR 0x22], 1),
          (''[Page no. 2] '' @ [CHR 0x22] @ ''d e'' @ [CHR 0x22], 2),
          (''[Page no. 2] '' @ [CHR 0x22] @ ''f'' @ [CHR 0x22], 2)]
   \<and> length (concat (map page_words
        [\<lparr>extract_text = ''a b c'' @ [CHR 0x0A], page_number = 1\<rparr>,
         \<lparr>extract_text = ''d e f'', page_number = 2\<rparr>])) = 6
   \<and> word_list \<lparr>extract_text = ''a b c'' @ [CHR 0x0A], page_number = 1\<rparr>
      = [''a'', ''b'', ''c'', []]
   \<and> chunk_words (''[Page no. 1] '' @ [CHR 0x22] @ ''c'' @ [CHR 0x22], 1) = [''c'']"
  by code_simp

text \<open>
  C3, as amended. The claim as stated fails: the carry does not look at the next
  page, so the remainder of a page is carried into a following page without words
  too, and when that page is the last one the remainder is emitted under its page
  number (see the counterexample below); inserting the page changes the output.
  What holds: for every positive \<open>max_words\<close>, inserting a page without words anywhere
  in the page list leaves the sequence of the words of the emitted chunks, in
  emission order, unchanged; the page adds no word to any chunk.
\<close>

theorem empty_page_adds_no_words:
  assumes "0 < max_words" and "page_words p = []"
  shows "\<exists>chunks chunks'. get_chunks (xs @ p # ys) max_words = Inr chunks
          \<and> get_chunks (xs @ ys) max_words = Inr chunks'
          \<and> concat (map chunk_words chunks) = concat (map chunk_words chunks')"
proof -
  have "concat (map chunk_words (map render (windows (nat max_words) (map page_entry (xs @ p # ys)))))
      = concat (map chunk_words (map render (windows (nat max_words) (map page_entry (xs @ ys)))))"
    using assms by (simp only: chunk_words_windows) simp
  then show ?thesis using assms(1) by (simp add: get_chunks_pos)
qed

text \<open>
  Witness for C3: a page of three words followed by an empty page, \<open>max_words = 2\<close>.
  The chunks differ in a page label, their words do not.
\<close>

theorem empty_page_adds_no_words_witness:
  "(0::int) < 2
   \<and> page_words \<lparr>extract_text = [], page_number = 2\<rparr> = []
   \<and> get_chunks [\<lparr>extract_text = ''a b c'', page_number = 1\<rparr>,
                 \<lparr>extract_text = [], page_number = 2\<rparr>] 2
      = Inr [(''[Page no. 1] '' @ [CHR 0x22] @ ''a b'' @ [CHR 0x22], 1),
             (''[Page no. 2] '' @ [CHR 0x22] @ ''c'' @ [CHR 0x22], 2)]
   \<and> get_chunks [\<lparr>extract_text = ''a b c'', page_number = 1\<rparr>] 2
      = Inr [(''[Page no. 1] '' @ [CHR 0x22] @ ''a b'' @ [CHR 0x22], 1),
             (''[Page no. 1] '' @ [CHR 0x22] @ ''c'' @ [CHR 0x22], 1)]
   \<and> concat (map chunk_words
        [(''[Page no. 1] '' @ [CHR 0x22] @ ''a b'' @ [CHR 0x22], 1),
         (''[Page no. 2] '' @ [CHR 0x22] @ ''c'' @ [CHR 0x22], 2)])
      = concat (map chunk_words
        [(''[Page no. 1] '' @ [CHR 0x22] @ ''a b'' @ [CHR 0x22], 1),
         (''[Page no. 1] '' @ [CHR 0x22] @ ''c'' @ [CHR 0x22], 1)])"
proof -
  let ?p = "\<lparr>extract_text = [], page_number = 2\<rparr>"
  let ?xs = "[\<lparr>extract_text = ''a b c'', page_number = 1\<rparr>]"
  have pw: "page_words ?p = []" by code_simp
  have run: "get_chunks (?xs @ ?p # []) 2
      = Inr [(''[Page no. 1] '' @ [CHR 0x22] @ ''a b'' @ [CHR 0x22], 1),
             (''[Page no. 2] '' @ [CHR 0x22] @ ''c'' @ [CHR 0x22], 2)]"
    by code_simp
  have run': "get_chunks (?xs @ []) 2
      = Inr [(''[Page no. 1] '' @ [CHR 0x22] @ ''a b'' @ [CHR 0x22], 1),
             (''[Page no. 1] '' @ [CHR 0x22] @ ''c'' @ [CHR 0x22], 1)]"
    by code_simp
  from empty_page_adds_no_words [of 2 ?p ?xs "[]", OF _ pw] run run' pw
  show ?thesis by simp
qed

text \<open>
  Counterexample to C3 as stated, \<open>max_words = 5\<close>: the page \<open>a b\<close> alone is emitted
  as \<open>[Page no. 1] "a b"\<close>; followed by an empty page 2 it is emitted as
  \<open>[Page no. 2] "a b"\<close>. The loop gives the same chunk when the word list of the
  second page is the empty list, so the new label is the work of the carry alone.
\<close>

theorem blank_last_page_relabels:
  "page_words \<lparr>extract_text = [], page_number = 2\<rparr> = []
   \<and> get_chunks [\<lparr>extract_text = ''a b'', page_number = 1\<rparr>,
                 \<lparr>extract_text = [], page_number = 2\<rparr>] 5
      = Inr [(''[Page no. 2] '' @ [CHR 0x22] @ ''a b'' @ [CHR 0x22], 2)]
   \<and> get_chunks [\<lparr>extract_text = ''a b'', page_number = 1\<rparr>] 5
      = Inr [(''[Page no. 1] '' @ [CHR 0x22] @ ''a b'' @ [CHR 0x22], 1)]
   \<and> chunk_loop 5 [([''a'', ''b''], 1), ([], 2)]
      = [(''[Page no. 2] '' @ [CHR 0x22] @ ''a b'' @ [CHR 0x22], 2)]"
  by code_simp

text \<open>
  C4, as amended. The claim as stated fails for the document without pages: its
  word count is 0, at most \<open>max_words\<close>, and no chunk is emitted (see the
  counterexample below). What holds: for every non-empty list of pages, each with a
  text that is not empty and neither begins nor ends with whitespace, whose total
  word count is at most \<open>max_words\<close>, \<open>get_chunks\<close> emits exactly one chunk; it holds
  every word of the document and is labelled with the page number of the last page.
\<close>

theorem single_chunk_when_words_fit:
  assumes "pages \<noteq> []"
    and clean: "\<forall>p \<in> set pages. extract_text p \<noteq> []
        \<and> \<not> is_space (hd (extract_text p)) \<and> \<not> is_space (last (extract_text p))"
    and fit: "int (length (concat (map page_words pages))) \<le> max_words"
  shows "get_chunks pages max_words =
      Inr [(format_chunk (concat (map page_words pages)) (page_number (last pages)),
            page_number (last pages))]
    \<and> chunk_words (format_chunk (concat (map page_words pages)) (page_number (last pages)),
                    page_number (last pages))
        = concat (map page_words pages)"
proof -
  have eq: "map word_list pages = map page_words pages"
    using clean by (rule clean_pages_word_lists)
  from assms(1) obtain p ps where pages: "pages = p # ps" by (cases pages) auto
  have "word_list p \<noteq> []" by (simp add: word_list_def)
  moreover have "word_list p = page_words p"
    using clean by (intro clean_page_word_list) (simp_all add: pages)
  ultimately have "page_words p \<noteq> []" by simp
  then have "0 < length (concat (map page_words pages))" by (simp add: pages)
  with fit have pos: "0 < max_words" by linarith
  have "length (concat (map word_list pages)) \<le> nat max_words"
    using fit unfolding eq by linarith
  from one_window_when_entries_fit [OF pos assms(1) this] show ?thesis
    by (simp only: eq)
qed

text \<open>
  Witness for C4: two pages, three words, \<open>max_words = 5\<close>.
\<close>

theorem single_chunk_when_words_fit_witness:
  "[\<lparr>extract_text = ''a b'', page_number = 1\<rparr>,
    \<lparr>extract_text = ''c'', page_number = 2\<rparr>] \<noteq> []
   \<and> list_all (\<lambda>p. extract_text p \<noteq> []
          \<and> \<not> is_space (hd (extract_text p)) \<and> \<not> is_space (last (extract_text p)))
        [\<lparr>extract_text = ''a b'', page_number = 1\<rparr>,
         \<lparr>extract_text = ''c'', page_number = 2\<rparr>]
   \<and> concat (map page_words
        [\<lparr>extract_text = ''a b'', page_number = 1\<rparr>,
         \<lparr>extract_text = ''c'', page_number = 2\<rparr>]) = [''a'', ''b'', ''c'']
   \<and> get_chunks [\<lparr>extract_text = ''a b'', page_number = 1\<rparr>,
                 \<lparr>extract_text = ''c'', page_number = 2\<rparr>] 5
      = Inr [(''[Page no. 2] '' @ [CHR 0x22] @ ''a b c'' @ [CHR 0x22], 2)]
   \<and> chunk_words (''[Page no. 2] '' @ [CHR 0x22] @ ''a b c'' @ [CHR 0x22], 2)
      = [''a'', ''b'', ''c'']"
proof -
  let ?pages = "[\<lparr>extract_text = ''a b'', page_number = 1\<rparr>,
                 \<lparr>extract_text = ''c'', page_number = 2\<rparr>]"
  have ne: "?pages \<noteq> []" by simp
  have clean: "\<forall>p \<in> set ?pages. extract_text p \<noteq> []
      \<and> \<not> is_space (hd (extract_text p)) \<and> \<not> is_space (last (extract_text p))"
    by (simp add: is_space_def)
  have pw: "concat (map page_words ?pages) = [''a'', ''b'', ''c'']" by code_simp
  have fit: "int (length (concat (map page_words ?pages))) \<le> 5" unfolding pw by simp
  have fmt: "format_chunk [''a'', ''b'', ''c''] 2
      = ''[Page no. 2] '' @ [CHR 0x22] @ ''a b c'' @ [CHR 0x22]"
    by code_simp
  note T = single_chunk_when_words_fit [OF ne clean fit, unfolded pw]
  from T have run: "get_chunks ?pages 5
      = Inr [(''[Page no. 2] '' @ [CHR 0x22] @ ''a b c'' @ [CHR 0x22], 2)]"
    by (simp add: fmt)
  from T have cw: "chunk_words (''[Page no. 2] '' @ [CHR 0x22] @ ''a b c'' @ [CHR 0x22], 2)
      = [''a'', ''b'', ''c'']"
    by (simp add: fmt)
  from clean have "list_all (\<lambda>p. extract_text p \<noteq> []
          \<and> \<not> is_space (hd (extract_text p)) \<and> \<not> is_space (last (extract_text p))) ?pages"
    by (simp only: list_all_iff)
  with ne pw run cw show ?thesis by (intro conjI)
qed

text \<open>
  Counterexample to C4 as stated: the document without pages, \<open>max_words = 2\<close>. Its
  word count is 0 and \<open>get_chunks\<close> returns the empty list, not one chunk.
\<close>

theorem no_page_no_chunk:
  "length (concat (map page_words [])) = 0 \<and> get_chunks [] 2 = Inr []"
  by code_simp

text \<open>
  C5, at the failing input. Page 1 holds a space followed by the 170 numerals 1 to
  170, page 2 the 80 numerals 171 to 250, separated by single spaces, and
  \<open>max_words = 150\<close>. \<open>split(" ")\<close> leaves an empty string before the leading space,
  so the word list of page 1 has 171 entries and its first window holds the empty
  string and the words \<open>[0:149]\<close>. Two chunks are emitted: the first, for page 1,
  has 149 words, not the words \<open>[0:150]\<close>; the second, for page 2, has the 21 words
  that are left of page 1 followed by the 80 words of page 2, 101 in all, not 100.
\<close>

theorem scenario_170_80_after_leading_space:
  "page_words \<lparr>extract_text = '' '' @ join '' '' (map str_nat [1 ..< 171]), page_number = 1\<rparr>
      = map str_nat [1 ..< 171]
   \<and> length (page_words
        \<lparr>extract_text = '' '' @ join '' '' (map str_nat [1 ..< 171]), page_number = 1\<rparr>) = 170
   \<and> page_words \<lparr>extract_text = join '' '' (map str_nat [171 ..< 251]), page_number = 2\<rparr>
      = map str_nat [171 ..< 251]
   \<and> length (page_words
        \<lparr>extract_text = join '' '' (map str_nat [171 ..< 251]), page_number = 2\<rparr>) = 80
   \<and> word_list \<lparr>extract_text = '' '' @ join '' '' (map str_nat [1 ..< 171]), page_number = 1\<rparr>
      = [] # map str_nat [1 ..< 171]
   \<and> get_chunks
        [\<lparr>extract_text = '' '' @ join '' '' (map str_nat [1 ..< 171]), page_number = 1\<rparr>,
         \<lparr>extract_text = join '' '' (map str_nat [171 ..< 251]), page_number = 2\<rparr>] 150
      = Inr [(''[Page no. 1] '' @ [CHR 0x22] @ join '' '' (map str_nat [1 ..< 150]) @ [CHR 0x22], 1),
             (''[Page no. 2] '' @ [CHR 0x22] @ join '' '' (map str_nat [150 ..< 251]) @ [CHR 0x22], 2)]
   \<and> chunk_words
        (''[Page no. 1] '' @ [CHR 0x22] @ join '' '' (map str_nat [1 ..< 150]) @ [CHR 0x22], 1)
      = map str_nat [1 ..< 150]
   \<and> length (chunk_words
        (''[Page no. 1] '' @ [CHR 0x22] @ join '' '' (map str_nat [1 ..< 150]) @ [CHR 0x22], 1))
      = 149
   \<and> chunk_words
        (''[Page no. 2] '' @ [CHR 0x22] @ join '' '' (map str_nat [150 ..< 251]) @ [CHR 0x22], 2)
      = map str_nat [150 ..< 251]
   \<and> length (chunk_words
        (''[Page no. 2] '' @ [CHR 0x22] @ join '' '' (map str_nat [150 ..< 251]) @ [CHR 0x22], 2))
      = 101"
proof -
  let ?p1 = "\<lparr>extract_text = '' '' @ join '' '' (map str_nat [1 ..< 171]), page_number = 1\<rparr>"
  let ?p2 = "\<lparr>extract_text = join '' '' (map str_nat [171 ..< 251]), page_number = 2\<rparr>"
  let ?c1 = "(''[Page no. 1] '' @ [CHR 0x22] @ join '' '' (map str_nat [1 ..< 150]) @ [CHR 0x22],
              1 :: int)"
  let ?c2 = "(''[Page no. 2] '' @ [CHR 0x22] @ join '' '' (map str_nat [150 ..< 251]) @ [CHR 0x22],
              2 :: int)"
  have w1: "page_words ?p1 = map str_nat [1 ..< 171]" by code_simp
  have w2: "page_words ?p2 = map str_nat [171 ..< 251]" by code_simp
  have l1: "length (page_words ?p1) = 170" unfolding w1 by simp
  have l2: "length (page_words ?p2) = 80" unfolding w2 by simp
  have e1: "word_list ?p1 = [] # map str_nat [1 ..< 171]" by code_simp
  have run: "get_chunks [?p1, ?p2] 150 = Inr [?c1, ?c2]" by code_simp
  have c1: "chunk_words ?c1 = map str_nat [1 ..< 150]" by code_simp
  have c2: "chunk_words ?c2 = map str_nat [150 ..< 251]" by code_simp
  have n1: "length (chunk_words ?c1) = 149" unfolding c1 by simp
  have n2: "length (chunk_words ?c2) = 101" unfolding c2 by simp
  from w1 l1 w2 l2 e1 run c1 n1 c2 n2 show ?thesis by (intro conjI)
qed

section \<open>Properties of the bootstrap, the identifiers, the prompt and the stream\<close>

text \<open>
  C6. If the lookup of the collection succeeds, \<open>ensure_collection\<close> returns
  \<open>COLLECTION_EXISTS\<close> and the ingestion run leaves the store as it is: no call of
  \<open>add\<close>. If the lookup fails with not-found, the collection is created with the
  cosine metric and \<open>insert_document\<close> is run over the PDF files (one call of \<open>add\<close>
  for each, when none raises). After any run the collection exists, so a second
  run adds nothing.
\<close>

theorem bootstrap_adds_only_when_absent:
  "(get_collection c ''harry_potter'' = Inr ''harry_potter'' \<longrightarrow>
      ensure_collection c = (c, Inr (COLLECTION_EXISTS, None))
      \<and> ingestion c pdfs = (c, None)
      \<and> add_calls (fst (ingestion c pdfs)) = add_calls c)
   \<and> (get_collection c ''harry_potter'' = Inl ValueError \<longrightarrow>
      snd (ensure_collection c) = Inr (COLLECTION_CREATED, Some ''harry_potter'')
      \<and> collections (fst (ensure_collection c)) ''harry_potter''
          = Some \<lparr>coll_metadata = [(''hnsw:space'', ''cosine'')], coll_entries = []\<rparr>
      \<and> ingestion c pdfs = insert_all pdfs (Some ''harry_potter'') (fst (ensure_collection c))
      \<and> (snd (ingestion c pdfs) = None \<longrightarrow>
            add_calls (fst (ingestion c pdfs)) = add_calls c + length pdfs))
   \<and> get_collection (fst (ingestion c pdfs)) ''harry_potter'' = Inr ''harry_potter''
   \<and> ingestion (fst (ingestion c pdfs)) pdfs' = (fst (ingestion c pdfs), None)"
proof -
  let ?n = "''harry_potter''"
  have exists: "ensure_collection c = (c, Inr (COLLECTION_EXISTS, None))
      \<and> ingestion c pdfs = (c, None)
      \<and> add_calls (fst (ingestion c pdfs)) = add_calls c"
    if "get_collection c ?n = Inr ?n"
  proof -
    from that have "collections c ?n \<noteq> None" by (simp add: get_collection_found)
    then show ?thesis by (simp add: ensure_collection_exists ingestion_exists)
  qed
  have absent: "snd (ensure_collection c) = Inr (COLLECTION_CREATED, Some ?n)
      \<and> collections (fst (ensure_collection c)) ?n
          = Some \<lparr>coll_metadata = [(''hnsw:space'', ''cosine'')], coll_entries = []\<rparr>
      \<and> ingestion c pdfs = insert_all pdfs (Some ?n) (fst (ensure_collection c))
      \<and> (snd (ingestion c pdfs) = None \<longrightarrow>
            add_calls (fst (ingestion c pdfs)) = add_calls c + length pdfs)"
    if "get_collection c ?n = Inl ValueError"
  proof -
    from that have none: "collections c ?n = None" by (simp add: get_collection_missing)
    have run: "ingestion c pdfs = insert_all pdfs (Some ?n) (fst (ensure_collection c))"
      using none by (rule ingestion_absent)
    have "add_calls (fst (ingestion c pdfs)) = add_calls c + length pdfs"
      if "snd (ingestion c pdfs) = None"
      using that insert_all_counts [of pdfs ?n "fst (ensure_collection c)"]
      by (simp add: run ensure_collection_absent [OF none])
    then show ?thesis
      using run by (simp add: ensure_collection_absent [OF none])
  qed
  have after: "get_collection (fst (ingestion c pdfs)) ?n = Inr ?n"
    using ingestion_creates [of c pdfs] by (simp add: get_collection_found)
  have again: "ingestion (fst (ingestion c pdfs)) pdfs' = (fst (ingestion c pdfs), None)"
    using ingestion_creates [of c pdfs] by (rule ingestion_exists)
  from exists absent after again show ?thesis by blast
qed

text \<open>
  Witness for C6: the first run on an empty store creates the collection and adds
  the one chunk of the one PDF file; the second run changes nothing.
\<close>

theorem bootstrap_adds_only_when_absent_witness:
  "get_collection \<lparr>collections = Map.empty, add_calls = 0\<rparr> ''harry_potter''
      = Inl ValueError
   \<and> ingestion \<lparr>collections = Map.empty, add_calls = 0\<rparr>
        [\<lparr>doc_stem = ''my_book 1'',
          doc_pages = [\<lparr>extract_text = ''a b'', page_number = 0\<rparr>]\<rparr>]
      = (\<lparr>collections = [''harry_potter'' \<mapsto>
            \<lparr>coll_metadata = [(''hnsw:space'', ''cosine'')],
             coll_entries = [(''my-book-1_p0-0'',
               ''[Page no. 0] '' @ [CHR 0x22] @ ''a b'' @ [CHR 0x22])]\<rparr>],
          add_calls = 1\<rparr>, None)
   \<and> get_collection \<lparr>collections = [''harry_potter'' \<mapsto>
            \<lparr>coll_metadata = [(''hnsw:space'', ''cosine'')],
             coll_entries = [(''my-book-1_p0-0'',
               ''[Page no. 0] '' @ [CHR 0x22] @ ''a b'' @ [CHR 0x22])]\<rparr>],
          add_calls = 1\<rparr> ''harry_potter''
      = Inr ''harry_potter''
   \<and> ingestion \<lparr>collections = [''harry_potter'' \<mapsto>
            \<lparr>coll_metadata = [(''hnsw:space'', ''cosine'')],
             coll_entries = [(''my-book-1_p0-0'',
               ''[Page no. 0] '' @ [CHR 0x22] @ ''a b'' @ [CHR 0x22])]\<rparr>],
          add_calls = 1\<rparr>
        [\<lparr>doc_stem = ''my_book 1'',
          doc_pages = [\<lparr>extract_text = ''a b'', page_number = 0\<rparr>]\<rparr>]
      = (\<lparr>collections = [''harry_potter'' \<mapsto>
            \<lparr>coll_metadata = [(''hnsw:space'', ''cosine'')],
             coll_entries = [(''my-book-1_p0-0'',
               ''[Page no. 0] '' @ [CHR 0x22] @ ''a b'' @ [CHR 0x22])]\<rparr>],
          add_calls = 1\<rparr>, None)"
proof -
  let ?c = "\<lparr>collections = Map.empty, add_calls = 0\<rparr>"
  let ?pdfs = "[\<lparr>doc_stem = ''my_book 1'',
          doc_pages = [\<lparr>extract_text = ''a b'', page_number = 0\<rparr>]\<rparr>]"
  let ?c1 = "\<lparr>collections = [''harry_potter'' \<mapsto>
            \<lparr>coll_metadata = [(''hnsw:space'', ''cosine'')],
             coll_entries = [(''my-book-1_p0-0'',
               ''[Page no. 0] '' @ [CHR 0x22] @ ''a b'' @ [CHR 0x22])]\<rparr>],
          add_calls = 1\<rparr>"
  have ch: "get_chunks [\<lparr>extract_text = ''a b'', page_number = 0\<rparr>] 150
      = Inr [(''[Page no. 0] '' @ [CHR 0x22] @ ''a b'' @ [CHR 0x22], 0)]"
    by code_simp
  have ids: "document_ids ''my-book-1'' [(''[Page no. 0] '' @ [CHR 0x22] @ ''a b'' @ [CHR 0x22], 0)]
      = [''my-book-1_p0-0'']"
    by code_simp
  have run: "insert_all ?pdfs (Some ''harry_potter'') (fst (ensure_collection ?c)) = (?c1, None)"
    using ids by (simp add: ensure_collection_absent insert_document_def replace_char_def ch add_def)
  have absent: "get_collection ?c ''harry_potter'' = Inl ValueError"
    by (simp add: get_collection_def)
  note T = bootstrap_adds_only_when_absent [of ?c ?pdfs ?pdfs]
  from T absent have "ingestion ?c ?pdfs
      = insert_all ?pdfs (Some ''harry_potter'') (fst (ensure_collection ?c))"
    by blast
  then have first: "ingestion ?c ?pdfs = (?c1, None)" by (simp only: run)
  from T have "get_collection (fst (ingestion ?c ?pdfs)) ''harry_potter'' = Inr ''harry_potter''"
    by blast
  then have found: "get_collection ?c1 ''harry_potter'' = Inr ''harry_potter''"
    by (simp only: first fst_conv)
  from T have "ingestion (fst (ingestion ?c ?pdfs)) ?pdfs = (fst (ingestion ?c ?pdfs), None)"
    by blast
  then have again: "ingestion ?c1 ?pdfs = (?c1, None)" by (simp only: first fst_conv)
  from absent first found again show ?thesis by (intro conjI)
qed

text \<open>
  C7. \<open>build_prompt\<close> returns the header \<open>"Search results:\n"\<close>, then every chunk
  text in the given order, each followed by \<open>"\n\n"\<close>, then the instruction block,
  then \<open>"\n\n\nQuery: "\<close>, the question and \<open>"\n\nAnswer: "\<close>; with no chunk, nothing
  stands between the header and the instruction block.
\<close>

theorem build_prompt_layout:
  "build_prompt question topn_chunks =
     ''Search results:'' @ [CHR 0x0A]
       @ concat (map (\<lambda>chunk. chunk @ [CHR 0x0A, CHR 0x0A]) topn_chunks)
       @ instructions
       @ [CHR 0x0A, CHR 0x0A, CHR 0x0A] @ ''Query: '' @ question
       @ [CHR 0x0A, CHR 0x0A] @ ''Answer: ''
   \<and> build_prompt ''Q'' [] =
     ''Search results:'' @ [CHR 0x0A] @ instructions
       @ [CHR 0x0A, CHR 0x0A, CHR 0x0A] @ ''Query: Q'' @ [CHR 0x0A, CHR 0x0A] @ ''Answer: ''"
  by (simp add: build_prompt_def foldl_append_chunks)

text \<open>
  C8. The identifiers \<open>{document_name}_p{page_number}-{chunk_index}\<close> that
  \<open>insert_document\<close> builds are pairwise distinct, for every document name and every
  chunk sequence (those of \<open>get_chunks\<close> among them): the index after the last hyphen
  tells them apart.
\<close>

theorem document_ids_distinct: "distinct (document_ids document_name chunks)"
proof -
  have len: "length (document_ids document_name chunks) = length chunks"
    by (simp add: document_ids_def)
  have "document_ids document_name chunks ! i \<noteq> document_ids document_name chunks ! j"
    if "i < length chunks" "j < length chunks" "i \<noteq> j" for i j
  proof
    assume "document_ids document_name chunks ! i = document_ids document_name chunks ! j"
    with that(1,2) have "(document_name @ ''_p'' @ str_int (snd (chunks ! i))) @ ''-'' @ str_nat i
        = (document_name @ ''_p'' @ str_int (snd (chunks ! j))) @ ''-'' @ str_nat j"
      by (simp add: document_ids_nth)
    then have "i = j" by (rule id_suffix_inj)
    with that(3) show False by simp
  qed
  then show ?thesis by (simp add: distinct_conv_nth len)
qed

text \<open>
  C9, at the failing input. A fragment that fails to parse is not discarded: the
  \<open>if\<close> after the \<open>try\<close> reads the payload of the fragment before, so its content is
  printed a second time; with no fragment before, \<open>data\<close> is unbound and the loop ends
  with \<open>NameError\<close>.
\<close>

theorem stream_loop_repeats_stale_payload:
  "stream_loop None [] [Some \<lparr>content = ''Hi'', stop = False, timings = []\<rparr>, None]
     = (''HiHi'', None)
   \<and> stream_loop None [] [Some \<lparr>content = ''Hi'', stop = False, timings = []\<rparr>]
     = (''Hi'', None)
   \<and> stream_loop None [] [None, Some \<lparr>content = ''Hi'', stop = False, timings = []\<rparr>]
     = ([], Some NameError)"
  by simp


section \<open>Properties of the text normaliser\<close>

text \<open>
  C10. A non-empty text of whitespace only is normalised to a single space; a
  leading and a trailing run of whitespace are each kept as one space. So the word
  list of a page is never empty: an empty page has the word list \<open>[""]\<close>, and a page
  text that begins or ends with whitespace has an empty string at that end of its
  word list.
\<close>

theorem clean_text_keeps_edge_whitespace:
  "(s \<noteq> [] \<and> (\<forall>c \<in> set s. is_space c) \<longrightarrow> clean_text s = '' '')
   \<and> (s \<noteq> [] \<and> is_space (hd s) \<longrightarrow> hd (clean_text s) = CHR '' '')
   \<and> (s \<noteq> [] \<and> is_space (last s) \<longrightarrow> last (clean_text s) = CHR '' '')
   \<and> (\<forall>c \<in> set (clean_text s). is_space c \<longrightarrow> c = CHR '' '')
   \<and> \<not> adjacent is_space (clean_text s)
   \<and> word_list page \<noteq> []
   \<and> (extract_text page = [] \<longrightarrow> word_list page = [[]])
   \<and> (extract_text page \<noteq> [] \<and> is_space (hd (extract_text page))
        \<longrightarrow> hd (word_list page) = [])
   \<and> (extract_text page \<noteq> [] \<and> is_space (last (extract_text page))
        \<longrightarrow> last (word_list page) = [])"
proof -
  have c1: "s \<noteq> [] \<and> (\<forall>c \<in> set s. is_space c) \<longrightarrow> clean_text s = '' ''"
    using clean_text_all_space [of s] by blast
  have c2: "s \<noteq> [] \<and> is_space (hd s) \<longrightarrow> hd (clean_text s) = CHR '' ''"
    using clean_text_hd [of s] by blast
  have c3: "s \<noteq> [] \<and> is_space (last s) \<longrightarrow> last (clean_text s) = CHR '' ''"
    using clean_text_last [of s] by blast
  have c4: "\<forall>c \<in> set (clean_text s). is_space c \<longrightarrow> c = CHR '' ''"
    using clean_text_space by blast
  have c5: "\<not> adjacent is_space (clean_text s)"
    unfolding clean_text_def by (rule sub_ws_no_adjacent)
  have c6: "word_list page \<noteq> []"
    unfolding word_list_def by (rule split_on_not_Nil)
  have c7: "extract_text page = [] \<longrightarrow> word_list page = [[]]"
    by (simp add: word_list_def clean_text_def replace_char_def)
  have c8: "extract_text page \<noteq> [] \<and> is_space (hd (extract_text page))
      \<longrightarrow> hd (word_list page) = []"
  proof
    assume h: "extract_text page \<noteq> [] \<and> is_space (hd (extract_text page))"
    then have "clean_text (extract_text page) \<noteq> []"
      by (simp add: clean_text_def sub_ws_Nil_iff replace_char_def)
    moreover from h have "hd (clean_text (extract_text page)) = CHR '' ''"
      using clean_text_hd by blast
    ultimately show "hd (word_list page) = []"
      unfolding word_list_def by (intro split_on_hd) simp_all
  qed
  have c9: "extract_text page \<noteq> [] \<and> is_space (last (extract_text page))
      \<longrightarrow> last (word_list page) = []"
  proof
    assume h: "extract_text page \<noteq> [] \<and> is_space (last (extract_text page))"
    then have "clean_text (extract_text page) \<noteq> []
        \<and> last (clean_text (extract_text page)) = CHR '' ''"
      using clean_text_last by blast
    then show "last (word_list page) = []"
      unfolding word_list_def by (intro split_on_last) simp_all
  qed
  from c1 c2 c3 c4 c5 c6 c7 c8 c9 show ?thesis by (intro conjI)
qed

text \<open>
  Witness for C10: a text of tab, line feed and space, and a page text with
  whitespace at both ends.
\<close>

theorem clean_text_keeps_edge_whitespace_witness:
  "list_all is_space [CHR 0x09, CHR 0x0A, CHR '' '']
   \<and> clean_text [CHR 0x09, CHR 0x0A, CHR '' ''] = '' ''
   \<and> word_list \<lparr>extract_text = [CHR 0x0A] @ ''a  b '', page_number = 1\<rparr>
        = [[], ''a'', ''b'', []]
   \<and> hd (word_list \<lparr>extract_text = [CHR 0x0A] @ ''a  b '', page_number = 1\<rparr>) = []
   \<and> last (word_list \<lparr>extract_text = [CHR 0x0A] @ ''a  b '', page_number = 1\<rparr>) = []"
proof -
  let ?s = "[CHR 0x09, CHR 0x0A, CHR '' '']"
  let ?p = "\<lparr>extract_text = [CHR 0x0A] @ ''a  b '', page_number = 1\<rparr>"
  note T = clean_text_keeps_edge_whitespace [of ?s ?p]
  have sp: "\<forall>c \<in> set ?s. is_space c" by (simp add: is_space_def)
  then have a: "list_all is_space ?s" by (simp only: list_all_iff)
  have ne: "?s \<noteq> []" by simp
  from T ne sp have b: "clean_text ?s = '' ''" by blast
  have ev: "word_list ?p = [[], ''a'', ''b'', []]" by code_simp
  have t: "extract_text ?p \<noteq> []" "is_space (hd (extract_text ?p))"
    "is_space (last (extract_text ?p))"
    by (simp_all add: is_space_def)
  from T t have c: "hd (word_list ?p) = []" by blast
  from T t have d: "last (word_list ?p) = []" by blast
  from a b ev c d show ?thesis by (intro conjI)
qed

end
